theory Spec2Isabelle
  imports Complex_Main "HOL-Library.Multiset"
begin

section \<open>Strings\<close>

text \<open>
  A JavaScript string is a sequence of UTF-16 code units. The development covers the code
  units below 256, the ones \<^typ>\<open>char\<close> holds, read as Latin-1.
\<close>

definition toUpperChar :: "char \<Rightarrow> char" where
  "toUpperChar c =
    (let n = (of_char c :: nat)
     in if (97 \<le> n \<and> n \<le> 122) \<or> (224 \<le> n \<and> n \<le> 254 \<and> n \<noteq> 247)
        then char_of (n - 32) else c)"

definition toLowerChar :: "char \<Rightarrow> char" where
  "toLowerChar c =
    (let n = (of_char c :: nat)
     in if (65 \<le> n \<and> n \<le> 90) \<or> (192 \<le> n \<and> n \<le> 222 \<and> n \<noteq> 215)
        then char_of (n + 32) else c)"

text \<open>The two case mappings on the bits of a character, for evaluation.\<close>

definition letter_bits :: "bool \<Rightarrow> bool \<Rightarrow> bool \<Rightarrow> bool \<Rightarrow> bool \<Rightarrow> bool \<Rightarrow> bool" where
  "letter_bits b0 b1 b2 b3 b4 b7 =
    (if b7 then \<not> (b4 \<and> b2 \<and> b1 \<and> b0)
     else (b0 \<or> b1 \<or> b2 \<or> b3 \<or> b4) \<and> \<not> (b4 \<and> b3 \<and> (b2 \<or> (b1 \<and> b0))))"

lemma toUpperChar_code [code]:
  "toUpperChar (Char b0 b1 b2 b3 b4 b5 b6 b7) =
    (if b6 \<and> b5 \<and> letter_bits b0 b1 b2 b3 b4 b7 then Char b0 b1 b2 b3 b4 False b6 b7
     else Char b0 b1 b2 b3 b4 b5 b6 b7)"
  by (cases b0; cases b1; cases b2; cases b3; cases b4; cases b5; cases b6; cases b7;
      simp add: toUpperChar_def letter_bits_def char_of_def bit_Suc_0_iff)

lemma toLowerChar_code [code]:
  "toLowerChar (Char b0 b1 b2 b3 b4 b5 b6 b7) =
    (if b6 \<and> \<not> b5 \<and> letter_bits b0 b1 b2 b3 b4 b7 then Char b0 b1 b2 b3 b4 True b6 b7
     else Char b0 b1 b2 b3 b4 b5 b6 b7)"
  by (cases b0; cases b1; cases b2; cases b3; cases b4; cases b5; cases b6; cases b7;
      simp add: toLowerChar_def letter_bits_def char_of_def bit_Suc_0_iff)

definition toLowerCase :: "string \<Rightarrow> string" where
  "toLowerCase s = map toLowerChar s"

definition isWhiteSpace :: "char \<Rightarrow> bool" where
  "isWhiteSpace c =
    (c \<in> set [CHR 0x09, CHR 0x0A, CHR 0x0B, CHR 0x0C, CHR 0x0D, CHR 0x20, CHR 0xA0])"

definition trim :: "string \<Rightarrow> string" where
  "trim s = rev (dropWhile isWhiteSpace (rev (dropWhile isWhiteSpace s)))"

definition startsWith :: "string \<Rightarrow> string \<Rightarrow> bool" where
  "startsWith w s = (take (length w) s = w)"

fun str_includes :: "string \<Rightarrow> string \<Rightarrow> bool" where
  "str_includes w [] = (w = [])"
| "str_includes w (c # cs) = (if startsWith w (c # cs) then True else str_includes w cs)"

section \<open>Regular expressions\<close>

datatype cls = AnyChar | NotChar char | OneOf string | Digit

datatype rx_item = Chr char | Cls cls | Many bool cls | Eos

datatype regex =
  Regex (ignoreCase: bool) (before: "rx_item list") (grp: "rx_item list") (after: "rx_item list")

definition lit :: "string \<Rightarrow> rx_item list" where
  "lit w = map Chr w"

definition canon :: "bool \<Rightarrow> char \<Rightarrow> char" where
  "canon ci c = (if ci then toUpperChar c else c)"

fun cls_mem :: "bool \<Rightarrow> cls \<Rightarrow> char \<Rightarrow> bool" where
  "cls_mem ci AnyChar c = True"
| "cls_mem ci (NotChar x) c = (canon ci c \<noteq> canon ci x)"
| "cls_mem ci (OneOf xs) c = (canon ci c \<in> set (map (canon ci) xs))"
| "cls_mem ci Digit c = (c \<in> set ''0123456789'')"

fun rx_run :: "bool \<Rightarrow> rx_item list \<Rightarrow> string \<Rightarrow> string \<Rightarrow> string list option" where
  "rx_run ci [] s acc = Some []"
| "rx_run ci (Chr x # r) s acc =
    (case s of [] \<Rightarrow> None
     | c # cs \<Rightarrow>
        if canon ci c = canon ci x then map_option ((#) [c]) (rx_run ci r cs []) else None)"
| "rx_run ci (Cls cl # r) s acc =
    (case s of [] \<Rightarrow> None
     | c # cs \<Rightarrow>
        if cls_mem ci cl c then map_option ((#) [c]) (rx_run ci r cs []) else None)"
| "rx_run ci (Many greedy cl # r) s acc =
    (if greedy then
       (case (case s of [] \<Rightarrow> None
              | c # cs \<Rightarrow>
                 if cls_mem ci cl c then rx_run ci (Many greedy cl # r) cs (acc @ [c])
                 else None) of
          Some m \<Rightarrow> Some m
        | None \<Rightarrow> map_option ((#) acc) (rx_run ci r s []))
     else
       (case map_option ((#) acc) (rx_run ci r s []) of
          Some m \<Rightarrow> Some m
        | None \<Rightarrow>
           (case s of [] \<Rightarrow> None
            | c # cs \<Rightarrow>
               if cls_mem ci cl c then rx_run ci (Many greedy cl # r) cs (acc @ [c])
               else None)))"
| "rx_run ci (Eos # r) s acc =
    (if s = [] then map_option ((#) []) (rx_run ci r s []) else None)"

definition rx_at :: "regex \<Rightarrow> string \<Rightarrow> (string \<times> string) option" where
  "rx_at re s =
    (case rx_run (ignoreCase re) (before re @ grp re @ after re) s [] of
       None \<Rightarrow> None
     | Some parts \<Rightarrow>
         Some (concat parts, concat (take (length (grp re)) (drop (length (before re)) parts))))"

record rx_match =
  pre :: string
  whole :: string
  group1 :: string
  post :: string

fun rx_find :: "regex \<Rightarrow> string \<Rightarrow> rx_match option" where
  "rx_find re [] =
    (case rx_at re [] of
       Some (w, g) \<Rightarrow> Some \<lparr>pre = [], whole = w, group1 = g, post = []\<rparr>
     | None \<Rightarrow> None)"
| "rx_find re (c # cs) =
    (case rx_at re (c # cs) of
       Some (w, g) \<Rightarrow> Some \<lparr>pre = [], whole = w, group1 = g, post = drop (length w) (c # cs)\<rparr>
     | None \<Rightarrow> map_option (\<lambda>m. m\<lparr>pre := c # pre m\<rparr>) (rx_find re cs))"

lemma rx_run_consumed:
  "rx_run ci items s acc = Some parts \<Longrightarrow> acc = [] \<or> (\<exists>g cl r. items = Many g cl # r) \<Longrightarrow>
   \<exists>rest. acc @ s = concat parts @ rest"
proof (induction ci items s acc arbitrary: parts rule: rx_run.induct)
  case (1 ci s acc)
  then show ?case by simp
next
  case (2 ci x r s acc)
  from "2.prems" obtain c cs p where s: "s = c # cs" and c: "canon ci c = canon ci x"
    and p: "rx_run ci r cs [] = Some p" and parts: "parts = [c] # p" and acc: "acc = []"
    by (auto split: list.splits if_splits)
  from "2.IH" [OF s c p] obtain rest where "cs = concat p @ rest" by auto
  with s parts acc show ?case by simp
next
  case (3 ci cl r s acc)
  from "3.prems" obtain c cs p where s: "s = c # cs" and c: "cls_mem ci cl c"
    and p: "rx_run ci r cs [] = Some p" and parts: "parts = [c] # p" and acc: "acc = []"
    by (auto split: list.splits if_splits)
  from "3.IH" [OF s c p] obtain rest where "cs = concat p @ rest" by auto
  with s parts acc show ?case by simp
next
  case (4 ci greedy cl r s acc)
  let ?more = "case s of [] \<Rightarrow> None
     | c # cs \<Rightarrow> if cls_mem ci cl c then rx_run ci (Many greedy cl # r) cs (acc @ [c]) else None"
  let ?stop = "map_option ((#) acc) (rx_run ci r s [])"
  have more: "\<exists>rest. acc @ s = concat parts @ rest"
    if m: "?more = Some parts" and ih: "\<And>c cs. s = c # cs \<Longrightarrow> cls_mem ci cl c \<Longrightarrow>
      rx_run ci (Many greedy cl # r) cs (acc @ [c]) = Some parts \<Longrightarrow>
      \<exists>rest. (acc @ [c]) @ cs = concat parts @ rest"
  proof -
    from m obtain c cs where s: "s = c # cs" and c: "cls_mem ci cl c"
      and run: "rx_run ci (Many greedy cl # r) cs (acc @ [c]) = Some parts"
      by (auto split: list.splits if_splits)
    from ih [OF s c run] s show ?thesis by simp
  qed
  have stop: "\<exists>rest. acc @ s = concat parts @ rest"
    if st: "?stop = Some parts" and ih: "\<And>p. rx_run ci r s [] = Some p \<Longrightarrow>
      \<exists>rest. [] @ s = concat p @ rest"
  proof -
    from st obtain p where p: "rx_run ci r s [] = Some p" and parts: "parts = acc # p" by auto
    from ih [OF p] parts show ?thesis by auto
  qed
  have eq: "(if greedy then (case ?more of Some m \<Rightarrow> Some m | None \<Rightarrow> ?stop)
      else (case ?stop of Some m \<Rightarrow> Some m | None \<Rightarrow> ?more)) = Some parts"
    using "4.prems"(1) by (subst (asm) rx_run.simps(4)) assumption
  show ?case
  proof (cases greedy)
    case True
    with eq have e: "(case ?more of Some m \<Rightarrow> Some m | None \<Rightarrow> ?stop) = Some parts"
      by (simp only: if_True)
    show ?thesis
    proof (cases ?more)
      case None
      with e have "?stop = Some parts" by (simp only: option.case)
      then show ?thesis using "4.IH"(2) [OF True None] by (intro stop) auto
    next
      case (Some m)
      with e have "?more = Some parts" by (simp only: option.case)
      then show ?thesis using "4.IH"(1) [OF True] by (intro more) auto
    qed
  next
    case False
    with eq have e: "(case ?stop of Some m \<Rightarrow> Some m | None \<Rightarrow> ?more) = Some parts"
      by (simp only: if_False)
    show ?thesis
    proof (cases ?stop)
      case None
      with e have "?more = Some parts" by (simp only: option.case)
      then show ?thesis using "4.IH"(4) [OF False None] by (intro more) auto
    next
      case (Some m)
      with e have "?stop = Some parts" by (simp only: option.case)
      then show ?thesis using "4.IH"(3) [OF False] by (intro stop) auto
    qed
  qed
next
  case (5 ci r s acc)
  from "5.prems" obtain p where s: "s = []" and p: "rx_run ci r s [] = Some p"
    and parts: "parts = [] # p" and "acc = []"
    by (auto split: if_splits)
  from "5.IH" [OF s p] obtain rest where "s = concat p @ rest" by auto
  with parts \<open>acc = []\<close> show ?case by simp
qed

lemma rx_at_prefix: "rx_at re s = Some (w, g) \<Longrightarrow> \<exists>rest. s = w @ rest"
  unfolding rx_at_def using rx_run_consumed [of "ignoreCase re" _ s "[]"]
  by (auto split: option.splits)

lemma rx_find_split:
  "rx_find re s = Some m \<Longrightarrow> s = pre m @ whole m @ post m"
proof (induction s arbitrary: m)
  case Nil
  then show ?case by (auto split: option.splits dest: rx_at_prefix)
next
  case (Cons c cs)
  show ?case
  proof (cases "rx_at re (c # cs)")
    case None
    with Cons.prems obtain m' where "rx_find re cs = Some m'" "m = m'\<lparr>pre := c # pre m'\<rparr>"
      by auto
    with Cons.IH [of m'] show ?thesis by simp
  next
    case (Some wg)
    with Cons.prems show ?thesis by (cases wg) (auto dest: rx_at_prefix)
  qed
qed

lemma rx_find_post_le: "rx_find re s = Some m \<Longrightarrow> length (post m) \<le> length s"
  using rx_find_split [of re s m] by (metis length_append le_add2 trans_le_add2)

lemma rx_find_post_less:
  "rx_find re s = Some m \<Longrightarrow> whole m \<noteq> [] \<Longrightarrow> length (post m) < length s"
proof -
  assume a: "rx_find re s = Some m" and w: "whole m \<noteq> []"
  from rx_find_split [OF a] have "length s = length (pre m) + length (whole m) + length (post m)"
    by (metis length_append add.assoc)
  with w show ?thesis by (cases "whole m") auto
qed

function rx_match_all :: "regex \<Rightarrow> string \<Rightarrow> string list" where
  "rx_match_all re s =
    (case rx_find re s of
       None \<Rightarrow> []
     | Some m \<Rightarrow>
        whole m #
          (if whole m = [] then (case post m of [] \<Rightarrow> [] | c # cs \<Rightarrow> rx_match_all re cs)
           else rx_match_all re (post m)))"
  by pat_completeness auto
termination
proof (relation "measure (\<lambda>(re, s). length s)")
  show "wf (measure (\<lambda>(re, s). length s))" by simp
next
  fix re s m c cs
  assume "rx_find re s = Some m" and "post m = c # cs"
  then show "((re, cs), (re, s)) \<in> measure (\<lambda>(re, s). length s)"
    using rx_find_post_le [of re s m] by simp
next
  fix re s m
  assume "rx_find re s = Some m" and "whole m \<noteq> []"
  then show "((re, post m), (re, s)) \<in> measure (\<lambda>(re, s). length s)"
    using rx_find_post_less [of re s m] by simp
qed

function rx_replace_all :: "regex \<Rightarrow> string \<Rightarrow> string \<Rightarrow> string" where
  "rx_replace_all re rep s =
    (case rx_find re s of
       None \<Rightarrow> s
     | Some m \<Rightarrow>
        pre m @ rep @
          (if whole m = [] then (case post m of [] \<Rightarrow> [] | c # cs \<Rightarrow> c # rx_replace_all re rep cs)
           else rx_replace_all re rep (post m)))"
  by pat_completeness auto
termination
proof (relation "measure (\<lambda>(re, rep, s). length s)")
  show "wf (measure (\<lambda>(re, rep, s). length s))" by simp
next
  fix re :: regex and rep s :: string and m c cs
  assume "rx_find re s = Some m" and "post m = c # cs"
  then show "((re, rep, cs), (re, rep, s)) \<in> measure (\<lambda>(re, rep, s). length s)"
    using rx_find_post_le [of re s m] by simp
next
  fix re :: regex and rep s :: string and m
  assume "rx_find re s = Some m" and "whole m \<noteq> []"
  then show "((re, rep, post m), (re, rep, s)) \<in> measure (\<lambda>(re, rep, s). length s)"
    using rx_find_post_less [of re s m] by simp
qed

definition rx_replace :: "regex \<Rightarrow> string \<Rightarrow> string \<Rightarrow> string" where
  "rx_replace re rep s =
    (case rx_find re s of None \<Rightarrow> s | Some m \<Rightarrow> pre m @ rep @ post m)"

function rx_split_loop :: "regex \<Rightarrow> string \<Rightarrow> string \<Rightarrow> string list" where
  "rx_split_loop re piece s =
    (case s of
       [] \<Rightarrow> [piece]
     | c # cs \<Rightarrow>
        (case rx_at re s of
           None \<Rightarrow> rx_split_loop re (piece @ [c]) cs
         | Some (w, g) \<Rightarrow>
            if w = [] \<and> piece = [] then rx_split_loop re (piece @ [c]) cs
            else piece # rx_split_loop re [] (drop (length w) s)))"
  by pat_completeness auto
termination
proof (relation "measure (\<lambda>(re, piece, s). 2 * length s + (if piece = [] then 0 else 1))",
    goal_cases)
  case (4 re piece s c cs wg w g)
  then show ?case by (cases w) auto
qed auto

definition rx_split :: "regex \<Rightarrow> string \<Rightarrow> string list" where
  "rx_split re s =
    (if s = [] then (case rx_at re s of None \<Rightarrow> [s] | Some m \<Rightarrow> [])
     else rx_split_loop re [] s)"

definition many1 :: "cls \<Rightarrow> rx_item list" where
  "many1 cl = [Cls cl, Many True cl]"

definition many0 :: "cls \<Rightarrow> rx_item list" where
  "many0 cl = [Many True cl]"

definition lazy0 :: "cls \<Rightarrow> rx_item list" where
  "lazy0 cl = [Many False cl]"

definition join :: "string \<Rightarrow> string list \<Rightarrow> string" where
  "join sep xs = (case xs of [] \<Rightarrow> [] | y # ys \<Rightarrow> y @ concat (map ((@) sep) ys))"

text \<open>\<^verbatim>\<open>xs.slice(start, end)\<close>: a negative index counts from the end.\<close>

definition slice :: "int \<Rightarrow> int \<Rightarrow> 'a list \<Rightarrow> 'a list" where
  "slice start end xs =
    (let len = int (length xs);
         k = (if start < 0 then max (len + start) 0 else min start len);
         final = (if end < 0 then max (len + end) 0 else min end len)
     in take (nat (final - k)) (drop (nat k) xs))"

section \<open>JSON values\<close>

datatype jsnum = Fin rat | Infinity bool

datatype json =
  JNull | JBool bool | JNum jsnum | JStr string | JArr "json list" | JObj "(string \<times> json) list"

fun truthy :: "json \<Rightarrow> bool" where
  "truthy JNull = False"
| "truthy (JBool b) = b"
| "truthy (JNum n) = (n \<noteq> Fin 0)"
| "truthy (JStr s) = (s \<noteq> [])"
| "truthy (JArr xs) = True"
| "truthy (JObj kvs) = True"

text \<open>
  \<^verbatim>\<open>allTags.includes(v)\<close> compares with SameValueZero: primitives by value, objects and
  arrays by reference. Every object or array of a parsed document is a fresh reference
  that the loops below visit once, so it is never found in the list.
\<close>

fun js_includes :: "json list \<Rightarrow> json \<Rightarrow> bool" where
  "js_includes xs (JArr ys) = False"
| "js_includes xs (JObj kvs) = False"
| "js_includes xs v = (v \<in> set xs)"

text \<open>
  \<^verbatim>\<open>v.key\<close> for a key that no prototype defines: a TypeError on null (\<open>None\<close>), the own
  property of an object (the last of duplicate keys) and undefined elsewhere.
\<close>

fun js_prop :: "json \<Rightarrow> string \<Rightarrow> json option option" where
  "js_prop JNull key = None"
| "js_prop (JObj kvs) key = Some (map_of (rev kvs) key)"
| "js_prop v key = Some None"

section \<open>Metadata extraction\<close>

datatype embed_type = Album | Track

record embedInfo =
  embed_type :: embed_type
  embed_id :: string

definition album_id_re :: regex where
  "album_id_re = Regex False (lit ''album'' @ [Cls (OneOf ''=:'')]) (many1 Digit) []"

definition track_id_re :: regex where
  "track_id_re = Regex False (lit ''track'' @ [Cls (OneOf ''=:'')]) (many1 Digit) []"

definition extractEmbedInfo :: "string \<Rightarrow> embedInfo option" where
  "extractEmbedInfo html =
    (case rx_find album_id_re html of
       Some albumMatch \<Rightarrow> Some \<lparr>embed_type = Album, embed_id = group1 albumMatch\<rparr>
     | None \<Rightarrow>
        (case rx_find track_id_re html of
           Some trackMatch \<Rightarrow> Some \<lparr>embed_type = Track, embed_id = group1 trackMatch\<rparr>
         | None \<Rightarrow> None))"

definition type_name :: "embed_type \<Rightarrow> string" where
  "type_name t = (case t of Album \<Rightarrow> ''album'' | Track \<Rightarrow> ''track'')"

definition buildEmbedHtml :: "embedInfo \<Rightarrow> string" where
  \<open>buildEmbedHtml info =
    (let baseUrl = ''https://bandcamp.com/EmbeddedPlayer'';
         params = [type_name (embed_type info) @ ''='' @ embed_id info,
                   ''size=small'', ''bgcol=0a0a0a'', ''linkcol=888888'', ''transparent=true'']
     in ''<iframe style="border: 0; width: 100%; height: 42px;" src="'' @ baseUrl @ ''/'' @
        join ''/'' params @ ''" seamless></iframe>'')\<close>

definition byArtist_re :: regex where
  \<open>byArtist_re = Regex True (lit ''<span itemprop="byArtist"'' @ many0 (NotChar CHR ''>'') @ lit ''>'')
     (many1 (NotChar CHR ''<'')) (lit ''</span>'')\<close>

definition og_site_name_re :: regex where
  \<open>og_site_name_re = Regex True (lit ''<meta property="og:site_name" content="'')
     (many1 (NotChar CHR 0x22)) [Chr CHR 0x22]\<close>

definition extractArtist :: "string \<Rightarrow> string option" where
  "extractArtist html =
    (case rx_find byArtist_re html of
       Some m \<Rightarrow> Some (trim (group1 m))
     | None \<Rightarrow>
        (case rx_find og_site_name_re html of
           Some ogMatch \<Rightarrow> Some (group1 ogMatch)
         | None \<Rightarrow> None))"

definition og_image_re :: regex where
  \<open>og_image_re = Regex True (lit ''<meta property="og:image" content="'')
     (many1 (NotChar CHR 0x22)) [Chr CHR 0x22]\<close>

definition extractThumbnail :: "string \<Rightarrow> string option" where
  "extractThumbnail html =
    (case rx_find og_image_re html of Some m \<Rightarrow> Some (group1 m) | None \<Rightarrow> None)"

definition tralbum_tags_re :: regex where
  \<open>tralbum_tags_re = Regex True (lit ''class="tralbum-tags"'' @ many0 (NotChar CHR ''>'') @ lit ''>'')
     (lazy0 AnyChar) (lit ''</div>'')\<close>

definition anchor_re :: regex where
  "anchor_re = Regex True (lit ''<a'' @ many0 (NotChar CHR ''>'') @ lit ''>'')
     (many1 (NotChar CHR ''<'')) (lit ''</a>'')"

definition markup_re :: regex where
  "markup_re = Regex False (lit ''<'' @ many1 (NotChar CHR ''>'') @ lit ''>'') [] []"

definition data_tralbum_re :: regex where
  \<open>data_tralbum_re = Regex False (lit ''data-tralbum="'') (many1 (NotChar CHR 0x22)) [Chr CHR 0x22]\<close>

definition quot_re :: regex where
  "quot_re = Regex False (lit ''&quot;'') [] []"

definition amp_re :: regex where
  "amp_re = Regex False (lit ''&amp;'') [] []"

definition tag_link_re :: regex where
  \<open>tag_link_re = Regex True (lit ''<a class="tag"'' @ many0 (NotChar CHR ''>'') @ lit ''>'')
     (many1 (NotChar CHR ''<'')) (lit ''</a>'')\<close>

text \<open>The body of both \<^verbatim>\<open>forEach\<close> callbacks over matched links.\<close>

definition push_link :: "json list \<Rightarrow> string \<Rightarrow> json list" where
  "push_link allTags link =
    (let text = trim (rx_replace_all markup_re [] link)
     in if text \<noteq> [] \<and> \<not> js_includes allTags (JStr text) then allTags @ [JStr text]
        else allTags)"

text \<open>
  \<^verbatim>\<open>data.tags.forEach(tag => ...)\<close> inside the \<^verbatim>\<open>try\<close>: reading \<^verbatim>\<open>tag.name\<close> of null throws,
  which ends the loop and keeps what was pushed before.
\<close>

fun push_names :: "json list \<Rightarrow> json list \<Rightarrow> json list" where
  "push_names allTags [] = allTags"
| "push_names allTags (tag # tags) =
    (case js_prop tag ''name'' of
       None \<Rightarrow> allTags
     | Some None \<Rightarrow> push_names allTags tags
     | Some (Some name) \<Rightarrow>
        push_names (if truthy name \<and> \<not> js_includes allTags name then allTags @ [name]
                    else allTags) tags)"

definition pattern1 :: "string \<Rightarrow> json list \<Rightarrow> json list" where
  "pattern1 html allTags =
    (case rx_find tralbum_tags_re html of
       None \<Rightarrow> allTags
     | Some tagMatch \<Rightarrow> foldl push_link allTags (rx_match_all anchor_re (group1 tagMatch)))"

definition pattern2 :: "(string \<Rightarrow> json option) \<Rightarrow> string \<Rightarrow> json list \<Rightarrow> json list" where
  \<open>pattern2 JSON_parse html allTags =
    (case rx_find data_tralbum_re html of
       None \<Rightarrow> allTags
     | Some jsonMatch \<Rightarrow>
        (let decoded = rx_replace_all amp_re ''&'' (rx_replace_all quot_re ''"'' (group1 jsonMatch))
         in case JSON_parse decoded of
              None \<Rightarrow> allTags
            | Some data \<Rightarrow>
               (case js_prop data ''tags'' of
                  None \<Rightarrow> allTags
                | Some None \<Rightarrow> allTags
                | Some (Some tags) \<Rightarrow>
                   if truthy tags
                   then (case tags of JArr ts \<Rightarrow> push_names allTags ts | _ \<Rightarrow> allTags)
                   else allTags)))\<close>

definition pattern3 :: "string \<Rightarrow> json list \<Rightarrow> json list" where
  "pattern3 html allTags = foldl push_link allTags (rx_match_all tag_link_re html)"

definition extractGenresAndLocation ::
  "(string \<Rightarrow> json option) \<Rightarrow> string \<Rightarrow> json list \<times> json option" where
  "extractGenresAndLocation JSON_parse html =
    (let allTags = pattern3 html (pattern2 JSON_parse html (pattern1 html []));
         location = (if length allTags > 0 then Some (allTags ! (length allTags - 1)) else None);
         genres = slice 0 4 (slice 0 (- 1) allTags)
     in (genres, location))"

definition album_href_re :: regex where
  \<open>album_href_re = Regex False (lit ''href="'') (lit ''/album/'' @ many1 (NotChar CHR 0x22))
     [Chr CHR 0x22]\<close>

definition track_href_re :: regex where
  \<open>track_href_re = Regex False (lit ''href="'') (lit ''/track/'' @ many1 (NotChar CHR 0x22))
     [Chr CHR 0x22]\<close>

definition trailing_slash_re :: regex where
  "trailing_slash_re = Regex False [Chr CHR ''/'', Eos] [] []"

definition extractLatestRelease :: "string \<Rightarrow> string \<Rightarrow> string option" where
  "extractLatestRelease html baseUrl =
    (case rx_find album_href_re html of
       Some albumMatch \<Rightarrow>
        (let base = rx_replace trailing_slash_re [] baseUrl in Some (base @ group1 albumMatch))
     | None \<Rightarrow>
        (case rx_find track_href_re html of
           Some trackMatch \<Rightarrow>
            (let base = rx_replace trailing_slash_re [] baseUrl in Some (base @ group1 trackMatch))
         | None \<Rightarrow> None))"

definition trackTitle_re :: regex where
  \<open>trackTitle_re = Regex True (lit ''<h2 class="trackTitle"'' @ many0 (NotChar CHR ''>'') @ lit ''>'')
     (many1 (NotChar CHR ''<'')) (lit ''</h2>'')\<close>

definition og_title_re :: regex where
  \<open>og_title_re = Regex True (lit ''<meta property="og:title" content="'')
     (many1 (NotChar CHR 0x22)) [Chr CHR 0x22]\<close>

definition extractAlbumTitle :: "string \<Rightarrow> string option" where
  "extractAlbumTitle html =
    (case rx_find trackTitle_re html of
       Some m \<Rightarrow> Some (trim (group1 m))
     | None \<Rightarrow>
        (case rx_find og_title_re html of
           Some ogMatch \<Rightarrow> Some (group1 ogMatch)
         | None \<Rightarrow> None))"

definition seps_re :: regex where
  "seps_re = Regex False (many1 (OneOf [CHR '','', CHR 0x0A])) [] []"

section \<open>CSV parser\<close>

record csv_state =
  rows :: "string list list"
  current :: "string list"
  field :: string
  inQuotes :: bool

fun parseCSV_loop :: "string \<Rightarrow> csv_state \<Rightarrow> csv_state" where
  "parseCSV_loop [] st = st"
| "parseCSV_loop (c # cs) st =
    (if c = CHR 0x22 then
       (if inQuotes st \<and> (case cs of [] \<Rightarrow> False | n # _ \<Rightarrow> n = CHR 0x22)
        then parseCSV_loop (tl cs) (st\<lparr>field := field st @ [CHR 0x22]\<rparr>)
        else parseCSV_loop cs (st\<lparr>inQuotes := \<not> inQuotes st\<rparr>))
     else if c = CHR '','' \<and> \<not> inQuotes st then
       parseCSV_loop cs (st\<lparr>current := current st @ [field st], field := []\<rparr>)
     else if c = CHR 0x0A \<and> \<not> inQuotes st then
       parseCSV_loop cs
         (st\<lparr>rows := rows st @ [current st @ [field st]], current := [], field := []\<rparr>)
     else if c = CHR 0x0D then parseCSV_loop cs st
     else parseCSV_loop cs (st\<lparr>field := field st @ [c]\<rparr>))"

definition csv_init :: csv_state where
  "csv_init = \<lparr>rows = [], current = [], field = [], inQuotes = False\<rparr>"

definition parseCSV :: "string \<Rightarrow> string list list" where
  "parseCSV csv =
    (let st = parseCSV_loop csv csv_init
     in if field st \<noteq> [] \<or> current st \<noteq> []
        then rows st @ [current st @ [field st]]
        else rows st)"

datatype csv_response = NetworkError | Response nat string

datatype build_error = FetchFailed

definition fetchCSV :: "csv_response \<Rightarrow> build_error + string list list" where
  "fetchCSV res =
    (case res of
       NetworkError \<Rightarrow> Inl FetchFailed
     | Response statusCode data \<Rightarrow>
        if statusCode \<noteq> 200 then Inl FetchFailed else Inr (drop 1 (parseCSV data)))"

section \<open>Shows, venues and media records\<close>

text \<open>A property of an object that may be missing.\<close>

datatype 'a property = Absent | Present 'a

record media =
  embedHtml :: "string option"
  trackTitle :: "string option"
  albumTitle :: "string option"
  artist :: "string option property"
  thumbnailUrl :: "string option property"
  genres :: "json list"
  location :: "json option"

text \<open>
  A venue object, as line 353 builds it from a row of the venues sheet, or as line 379
  builds it for a name that the lookup does not find: the latter has a name only.
\<close>

record venue =
  name :: string
  address :: "string property"
  website :: "string property"
  neighborhood :: "string property"
  capacity :: "string property"

text \<open>
  What \<^verbatim>\<open>venues[venueName] || { name: venueName }\<close> can be. The lookup object is a plain
  object, so a name that is not a key of its own is read from its prototype chain: from
  the venue object that an assignment to \<^verbatim>\<open>__proto__\<close> has installed as prototype, whose
  fields are texts, and from \<^verbatim>\<open>Object.prototype\<close>, whose members are functions and the
  accessor \<^verbatim>\<open>__proto__\<close>.
\<close>

datatype venue_value =
    VenueObject venue
  | InheritedText string
  | InheritedFunction string
  | ObjectPrototype

record show_entry =
  date :: string
  venue :: venue_value
  title :: string
  time :: string
  cost :: string
  age :: string
  linkUrl :: string
  imageUrl :: string
  details :: string
  multiples :: string
  bandcampUrl :: "string property"
  bandcamp :: "media list property"

section \<open>Metadata fetch pipeline\<close>

text \<open>
  What the program takes from its runtime: \<^verbatim>\<open>JSON.parse\<close> (\<open>None\<close> is a SyntaxError),
  \<^verbatim>\<open>Date.parse\<close> in milliseconds (\<open>None\<close> is NaN), the settled outcome of
  \<^verbatim>\<open>await fetchUrl(url)\<close>, the page when the promise resolves and \<open>None\<close> when it rejects,
  on a network of state \<open>'w\<close>, and \<^verbatim>\<open>Array.prototype.sort\<close> on the list of the shows, given the
  comparison function (\<open>None\<close> is NaN).
\<close>

record 'w runtime =
  JSON_parse :: "string \<Rightarrow> json option"
  Date_parse :: "string \<Rightarrow> int option"
  fetchUrl :: "string \<Rightarrow> 'w \<Rightarrow> string option \<times> 'w"
  Array_sort :: "(show_entry \<Rightarrow> show_entry \<Rightarrow> int option) \<Rightarrow> show_entry list \<Rightarrow> show_entry list"

text \<open>
  The state of a run: the cache with its two counters, the network, and the list of the
  URLs handed to \<^verbatim>\<open>fetchUrl\<close> so far. A cached record is an object, so
  \<^verbatim>\<open>if (bandcampCache[cacheKey])\<close> asks whether the key is in the cache: the keys that the
  program looks up contain \<^verbatim>\<open>bandcamp.com\<close>, and no member of \<^verbatim>\<open>Object.prototype\<close> has such a
  name.
\<close>

record 'w pipeline =
  bandcampCache :: "string \<rightharpoonup> media"
  cacheHits :: nat
  cacheMisses :: nat
  world :: 'w
  requests :: "string list"

definition fetch :: "'w runtime \<Rightarrow> string \<Rightarrow> 'w pipeline \<Rightarrow> string option \<times> 'w pipeline" where
  "fetch rt url st =
    (case fetchUrl rt url (world st) of
       (res, w) \<Rightarrow> (res, st\<lparr>world := w, requests := requests st @ [url]\<rparr>))"

text \<open>
  The extracting half of \<^verbatim>\<open>fetchBandcampData\<close>: the record it returns for the page it
  ends on.
\<close>

definition page_metadata :: "'w runtime \<Rightarrow> string \<Rightarrow> media" where
  "page_metadata rt pageHtml =
    (case extractGenresAndLocation (JSON_parse rt) pageHtml of
       (tags, place) \<Rightarrow>
        (let embedInfo = extractEmbedInfo pageHtml;
             albumTitle' = extractAlbumTitle pageHtml;
             artist' = extractArtist pageHtml;
             thumbnailUrl' = extractThumbnail pageHtml
         in case embedInfo of
              None \<Rightarrow>
               \<lparr>embedHtml = None, trackTitle = None, albumTitle = albumTitle',
                artist = Absent, thumbnailUrl = Absent, genres = tags, location = place\<rparr>
            | Some info \<Rightarrow>
               \<lparr>embedHtml = Some (buildEmbedHtml info), trackTitle = albumTitle',
                albumTitle = albumTitle', artist = Present artist',
                thumbnailUrl = Present thumbnailUrl', genres = tags, location = place\<rparr>))"

text \<open>
  The fetching half of \<^verbatim>\<open>fetchBandcampData\<close>: the page of the URL, or of the latest release
  when the URL is an artist page that links to one. \<open>None\<close> is an error thrown by a fetch.
\<close>

definition fetch_page :: "'w runtime \<Rightarrow> string \<Rightarrow> 'w pipeline \<Rightarrow> string option \<times> 'w pipeline" where
  "fetch_page rt bandcampUrl' st =
    (case fetch rt bandcampUrl' st of
       (None, st1) \<Rightarrow> (None, st1)
     | (Some pageHtml, st1) \<Rightarrow>
        if \<not> str_includes ''/album/'' bandcampUrl' \<and> \<not> str_includes ''/track/'' bandcampUrl'
        then (case extractLatestRelease pageHtml bandcampUrl' of
                None \<Rightarrow> (Some pageHtml, st1)
              | Some latestRelease \<Rightarrow>
                 if latestRelease \<noteq> [] then fetch rt latestRelease st1
                 else (Some pageHtml, st1))
        else (Some pageHtml, st1))"

definition fetchBandcampData ::
  "'w runtime \<Rightarrow> string \<Rightarrow> 'w pipeline \<Rightarrow> media option \<times> 'w pipeline" where
  "fetchBandcampData rt bandcampUrl' st =
    (if bandcampUrl' = [] \<or> \<not> str_includes ''bandcamp.com'' bandcampUrl' then (None, st)
     else
       (case fetch_page rt bandcampUrl' st of
          (None, st1) \<Rightarrow> (None, st1)
        | (Some pageHtml, st1) \<Rightarrow> (Some (page_metadata rt pageHtml), st1)))"

text \<open>The body of the loop over the URLs of one show.\<close>

definition url_step ::
  "'w runtime \<Rightarrow> media list \<times> 'w pipeline \<Rightarrow> string \<Rightarrow> media list \<times> 'w pipeline" where
  "url_step rt acc url =
    (case acc of
       (bandcampData, st) \<Rightarrow>
        (let cacheKey = toLowerCase url
         in case bandcampCache st cacheKey of
              Some cached \<Rightarrow> (bandcampData @ [cached], st\<lparr>cacheHits := cacheHits st + 1\<rparr>)
            | None \<Rightarrow>
               (case fetchBandcampData rt url st of
                  (Some data, st1) \<Rightarrow>
                   (bandcampData @ [data],
                    st1\<lparr>bandcampCache := (bandcampCache st1)(cacheKey \<mapsto> data),
                        cacheMisses := cacheMisses st1 + 1\<rparr>)
                | (None, st1) \<Rightarrow> (bandcampData, st1))))"

definition url_loop ::
  "'w runtime \<Rightarrow> string list \<Rightarrow> 'w pipeline \<Rightarrow> media list \<times> 'w pipeline" where
  "url_loop rt urls st = foldl (url_step rt) ([], st) urls"

section \<open>Show aggregation\<close>

text \<open>
  \<^verbatim>\<open>row[i]\<close>, with undefined read as the empty text: every use tests it for truth, takes
  \<^verbatim>\<open>row[i] || ''\<close>, or reads a column that the filter of the rows has tested.
\<close>

definition cell :: "string list \<Rightarrow> nat \<Rightarrow> string" where
  "cell row i = (if i < length row then row ! i else [])"

text \<open>
  The lookup object \<^verbatim>\<open>venues\<close> of line 349: its own properties, and the venue object
  installed as its prototype, if any; without one its prototype is \<^verbatim>\<open>Object.prototype\<close>.
\<close>

record venues_object =
  own :: "string \<rightharpoonup> venue"
  installed :: "venue option"

definition empty_object :: venues_object where
  "empty_object = \<lparr>own = Map.empty, installed = None\<rparr>"

text \<open>
  \<^verbatim>\<open>venues[name] = {...}\<close>: the name \<^verbatim>\<open>__proto__\<close> reaches the setter of \<^verbatim>\<open>Object.prototype\<close>,
  which makes the new object the prototype of \<^verbatim>\<open>venues\<close>; every other name becomes or
  stays a property of its own.
\<close>

definition add_venue :: "venues_object \<Rightarrow> string list \<Rightarrow> venues_object" where
  "add_venue venues row =
    (let v = \<lparr>name = cell row 0, address = Present (cell row 1), website = Present (cell row 2),
              neighborhood = Present (cell row 3), capacity = Present (cell row 4)\<rparr>
     in if cell row 0 \<noteq> []
        then (if cell row 0 = ''__proto__'' then venues\<lparr>installed := Some v\<rparr>
              else venues\<lparr>own := (own venues)(cell row 0 \<mapsto> v)\<rparr>)
        else venues)"

text \<open>The function-valued members of \<^verbatim>\<open>Object.prototype\<close>.\<close>

definition object_prototype_functions :: "string list" where
  "object_prototype_functions =
    [''constructor'', ''__defineGetter__'', ''__defineSetter__'', ''hasOwnProperty'',
     ''__lookupGetter__'', ''__lookupSetter__'', ''isPrototypeOf'', ''propertyIsEnumerable'',
     ''toString'', ''valueOf'', ''toLocaleString'']"

text \<open>
  \<^verbatim>\<open>venues[venueName]\<close>, \<open>None\<close> when the value is falsy: undefined, or an empty text
  inherited from the installed venue object.
\<close>

definition from_object_prototype :: "venues_object \<Rightarrow> string \<Rightarrow> venue_value option" where
  "from_object_prototype venues key =
    (if key = ''__proto__''
     then (case installed venues of None \<Rightarrow> Some ObjectPrototype | Some p \<Rightarrow> Some (VenueObject p))
     else if key \<in> set object_prototype_functions then Some (InheritedFunction key)
     else None)"

definition text_field :: "string property \<Rightarrow> venue_value option" where
  "text_field f = (case f of Present s \<Rightarrow> if s \<noteq> [] then Some (InheritedText s) else None
                   | Absent \<Rightarrow> None)"

definition venue_lookup :: "venues_object \<Rightarrow> string \<Rightarrow> venue_value option" where
  "venue_lookup venues key =
    (case own venues key of
       Some v \<Rightarrow> Some (VenueObject v)
     | None \<Rightarrow>
        (case installed venues of
           None \<Rightarrow> from_object_prototype venues key
         | Some p \<Rightarrow>
            if key = ''name'' then text_field (Present (name p))
            else if key = ''address'' then text_field (address p)
            else if key = ''website'' then text_field (website p)
            else if key = ''neighborhood'' then text_field (neighborhood p)
            else if key = ''capacity'' then text_field (capacity p)
            else from_object_prototype venues key))"

definition has_required :: "string list \<Rightarrow> bool" where
  "has_required row = (cell row 0 \<noteq> [] \<and> cell row 1 \<noteq> [] \<and> cell row 2 \<noteq> [])"

definition make_show :: "venues_object \<Rightarrow> string list \<Rightarrow> show_entry" where
  "make_show venues row =
    \<lparr>date = cell row 0,
     venue = (case venue_lookup venues (cell row 1) of
                Some v \<Rightarrow> v
              | None \<Rightarrow> VenueObject \<lparr>name = cell row 1, address = Absent, website = Absent,
                                     neighborhood = Absent, capacity = Absent\<rparr>),
     title = cell row 2, time = cell row 3, cost = cell row 4, age = cell row 5,
     linkUrl = cell row 6, imageUrl = cell row 7, details = cell row 8,
     multiples = cell row 9, bandcampUrl = Present (cell row 12), bandcamp = Absent\<rparr>"

definition media_urls :: "string \<Rightarrow> string list" where
  "media_urls text =
    filter (\<lambda>u. u \<noteq> [] \<and> str_includes ''bandcamp.com'' u) (map trim (rx_split seps_re text))"

text \<open>The body of the loop over the shows.\<close>

definition show_step ::
  "'w runtime \<Rightarrow> show_entry list \<times> 'w pipeline \<Rightarrow> show_entry \<Rightarrow> show_entry list \<times> 'w pipeline"
  where
  "show_step rt acc sh =
    (case acc of
       (shows, st) \<Rightarrow>
        (case bandcampUrl sh of
           Present text \<Rightarrow>
            if text \<noteq> [] then
              (case url_loop rt (media_urls text) st of
                 (bandcampData, st1) \<Rightarrow>
                  (shows @ [(if length bandcampData > 0 then sh\<lparr>bandcamp := Present bandcampData\<rparr>
                             else sh)\<lparr>bandcampUrl := Absent\<rparr>], st1))
            else (shows @ [sh\<lparr>bandcampUrl := Absent\<rparr>], st)
         | Absent \<Rightarrow> (shows @ [sh\<lparr>bandcampUrl := Absent\<rparr>], st)))"

text \<open>\<^verbatim>\<open>new Date(a.date) - new Date(b.date)\<close>: NaN when either date does not parse.\<close>

definition by_date :: "'w runtime \<Rightarrow> show_entry \<Rightarrow> show_entry \<Rightarrow> int option" where
  "by_date rt a b =
    (case (Date_parse rt (date a), Date_parse rt (date b)) of
       (Some x, Some y) \<Rightarrow> Some (x - y)
     | _ \<Rightarrow> None)"

text \<open>
  The object that is written to \<^verbatim>\<open>shows.json\<close>, and the state the run ends in.
  \<^verbatim>\<open>JSON.stringify\<close> writes the own properties of \<^verbatim>\<open>venues\<close>, and leaves out of a show a
  venue that is a function.
\<close>

record 'w build_result =
  out_venues :: venues_object
  out_shows :: "show_entry list"
  lastUpdated :: string
  final :: "'w pipeline"

text \<open>
  \<^verbatim>\<open>build\<close>, from the two spreadsheet responses, the cache loaded from disk, the network and
  the clock. \<open>Inl\<close> is the failure that ends the process with status 1.
\<close>

definition build ::
  "'w runtime \<Rightarrow> csv_response \<Rightarrow> csv_response \<Rightarrow> (string \<rightharpoonup> media) \<Rightarrow> 'w \<Rightarrow> string \<Rightarrow>
   build_error + 'w build_result" where
  "build rt venuesRes showsRes loaded w now =
    (case fetchCSV venuesRes of
       Inl e \<Rightarrow> Inl e
     | Inr venuesData \<Rightarrow>
        (let venues = foldl add_venue empty_object venuesData
         in case fetchCSV showsRes of
              Inl e \<Rightarrow> Inl e
            | Inr showsData \<Rightarrow>
               (let st = \<lparr>bandcampCache = loaded, cacheHits = 0, cacheMisses = 0,
                          world = w, requests = []\<rparr>;
                    showsRaw = map (make_show venues) (filter has_required showsData)
                in case foldl (show_step rt) ([], st) showsRaw of
                     (shows, st1) \<Rightarrow>
                      Inr \<lparr>out_venues = venues, out_shows = Array_sort rt (by_date rt) shows,
                           lastUpdated = now, final = st1\<rparr>)))"

section \<open>A runtime\<close>

text \<open>
  \<^verbatim>\<open>Date.parse\<close> on the date form \<^verbatim>\<open>YYYY-MM-DD\<close>, in milliseconds since the epoch: V8 takes
  a month from 01 to 12 and a day from 01 to 31, and counts a day past the end of the
  month into the next month. Every other text is taken for one that does not parse.
\<close>

definition digit_value :: "char \<Rightarrow> int" where
  "digit_value c = int (of_char c) - 48"

definition number_of :: "string \<Rightarrow> int" where
  "number_of s = foldl (\<lambda>n c. 10 * n + digit_value c) 0 s"

definition days_from_civil :: "int \<Rightarrow> int \<Rightarrow> int \<Rightarrow> int" where
  "days_from_civil y m d =
    (let y1 = (if m \<le> 2 then y - 1 else y);
         era = y1 div 400;
         yoe = y1 - era * 400;
         doy = (153 * (if m > 2 then m - 3 else m + 9) + 2) div 5 + d - 1;
         doe = yoe * 365 + yoe div 4 - yoe div 100 + doy
     in era * 146097 + doe - 719468)"

definition iso_date :: "string \<Rightarrow> int option" where
  "iso_date s =
    (if length s = 10 \<and> s ! 4 = CHR ''-'' \<and> s ! 7 = CHR ''-'' \<and>
        list_all (\<lambda>c. c \<in> set ''0123456789'') (take 4 s @ take 2 (drop 5 s) @ drop 8 s)
     then (let y = number_of (take 4 s); m = number_of (take 2 (drop 5 s));
               d = number_of (drop 8 s)
           in if 1 \<le> m \<and> m \<le> 12 \<and> 1 \<le> d \<and> d \<le> 31
              then Some ((days_from_civil y m 1 + d - 1) * 86400000)
              else None)
     else None)"

text \<open>
  \<^verbatim>\<open>Array.prototype.sort\<close> as V8 runs it on an array of fewer than 64 elements. A comparison
  that yields NaN counts as 0. The run at the start of the array is found, non-descending
  or strictly descending, and a descending run is reversed; then each remaining element
  is put into the sorted part at the place that a binary search gives.
\<close>

definition sort_compare :: "('a \<Rightarrow> 'a \<Rightarrow> int option) \<Rightarrow> 'a \<Rightarrow> 'a \<Rightarrow> int" where
  "sort_compare compare x y = (case compare x y of None \<Rightarrow> 0 | Some v \<Rightarrow> v)"

fun run_scan :: "('a \<Rightarrow> 'a \<Rightarrow> int option) \<Rightarrow> bool \<Rightarrow> 'a \<Rightarrow> 'a list \<Rightarrow> 'a list \<times> 'a list" where
  "run_scan compare isDescending previousElement [] = ([], [])"
| "run_scan compare isDescending previousElement (currentElement # rest) =
    (if (if isDescending then sort_compare compare currentElement previousElement \<ge> 0
         else sort_compare compare currentElement previousElement < 0)
     then ([], currentElement # rest)
     else (case run_scan compare isDescending currentElement rest of
             (run, remaining) \<Rightarrow> (currentElement # run, remaining)))"

fun countAndMakeRun :: "('a \<Rightarrow> 'a \<Rightarrow> int option) \<Rightarrow> 'a list \<Rightarrow> 'a list \<times> 'a list" where
  "countAndMakeRun compare (elementHigh # elementLow # rest) =
    (let isDescending = sort_compare compare elementLow elementHigh < 0
     in case run_scan compare isDescending elementLow rest of
          (run, remaining) \<Rightarrow>
           (if isDescending then rev (elementHigh # elementLow # run)
            else elementHigh # elementLow # run, remaining))"
| "countAndMakeRun compare xs = (xs, [])"

function insertion_point :: "('a \<Rightarrow> 'a \<Rightarrow> int option) \<Rightarrow> 'a \<Rightarrow> 'a list \<Rightarrow> nat \<Rightarrow> nat \<Rightarrow> nat" where
  "insertion_point compare pivot xs left right =
    (if left < right
     then (let mid = left + (right - left) div 2
           in if sort_compare compare pivot (xs ! mid) < 0
              then insertion_point compare pivot xs left mid
              else insertion_point compare pivot xs (mid + 1) right)
     else left)"
  by pat_completeness auto

termination insertion_point
  by (relation "measure (\<lambda>(compare, pivot, xs, left, right). right - left)") auto

declare insertion_point.simps [simp del]

definition binary_insert :: "('a \<Rightarrow> 'a \<Rightarrow> int option) \<Rightarrow> 'a list \<Rightarrow> 'a \<Rightarrow> 'a list" where
  "binary_insert compare sorted_part pivot =
    (let left = insertion_point compare pivot sorted_part 0 (length sorted_part)
     in take left sorted_part @ pivot # drop left sorted_part)"

definition v8_sort :: "('a \<Rightarrow> 'a \<Rightarrow> int option) \<Rightarrow> 'a list \<Rightarrow> 'a list" where
  "v8_sort compare xs =
    (if length xs < 2 then xs
     else (case countAndMakeRun compare xs of
             (run, remaining) \<Rightarrow> foldl (binary_insert compare) run remaining))"

section \<open>Notions of the statements\<close>

text \<open>A decimal digit, the class \<^verbatim>\<open>\d\<close>.\<close>

definition is_digit :: "char \<Rightarrow> bool" where
  "is_digit c = (c \<in> set ''0123456789'')"

text \<open>A URL without its one trailing slash, if it has one.\<close>

definition strip_slash :: "string \<Rightarrow> string" where
  "strip_slash url = (if url \<noteq> [] \<and> last url = CHR ''/'' then butlast url else url)"

definition scheme_sep_re :: regex where
  "scheme_sep_re = Regex False (lit ''://'') [] []"

text \<open>The origin of a URL: its scheme, \<^verbatim>\<open>://\<close> and its authority.\<close>

definition url_origin :: "string \<Rightarrow> string" where
  "url_origin url =
    (case rx_find scheme_sep_re url of
       None \<Rightarrow> url
     | Some m \<Rightarrow> pre m @ whole m @ takeWhile (\<lambda>c. c \<notin> set ''/?#'') (post m))"

text \<open>Appending a candidate to the merged list: it is kept when it is truthy and new.\<close>

definition push_tag :: "json list \<Rightarrow> json \<Rightarrow> json list" where
  "push_tag allTags v = (if truthy v \<and> \<not> js_includes allTags v then allTags @ [v] else allTags)"

text \<open>The text of a matched link: the markup removed, then trimmed.\<close>

definition link_text :: "string \<Rightarrow> string" where
  "link_text link = trim (rx_replace_all markup_re [] link)"

text \<open>The names that the loop over \<^verbatim>\<open>data.tags\<close> reads, up to the first null tag.\<close>

fun tag_names :: "json list \<Rightarrow> json list" where
  "tag_names [] = []"
| "tag_names (tag # tags) =
    (case js_prop tag ''name'' of
       None \<Rightarrow> []
     | Some None \<Rightarrow> tag_names tags
     | Some (Some v) \<Rightarrow> v # tag_names tags)"

text \<open>The candidates of the three strategies, before any of them is dropped.\<close>

definition candidates1 :: "string \<Rightarrow> json list" where
  "candidates1 html =
    (case rx_find tralbum_tags_re html of
       None \<Rightarrow> []
     | Some m \<Rightarrow> map (\<lambda>link. JStr (link_text link)) (rx_match_all anchor_re (group1 m)))"

definition candidates2 :: "(string \<Rightarrow> json option) \<Rightarrow> string \<Rightarrow> json list" where
  \<open>candidates2 parse html =
    (case rx_find data_tralbum_re html of
       None \<Rightarrow> []
     | Some m \<Rightarrow>
        (case parse (rx_replace_all amp_re ''&'' (rx_replace_all quot_re ''"'' (group1 m))) of
           None \<Rightarrow> []
         | Some data \<Rightarrow>
            (case js_prop data ''tags'' of
               Some (Some (JArr ts)) \<Rightarrow> tag_names ts
             | _ \<Rightarrow> [])))\<close>

definition candidates3 :: "string \<Rightarrow> json list" where
  "candidates3 html = map (\<lambda>link. JStr (link_text link)) (rx_match_all tag_link_re html)"

text \<open>The texts among the values of a list.\<close>

fun texts :: "json list \<Rightarrow> string list" where
  "texts [] = []"
| "texts (JStr s # vs) = s # texts vs"
| "texts (v # vs) = texts vs"

text \<open>A list without the later copies of its elements.\<close>

fun dedup_first :: "'a list \<Rightarrow> 'a list" where
  "dedup_first [] = []"
| "dedup_first (x # xs) = x # filter (\<lambda>y. y \<noteq> x) (dedup_first xs)"

text \<open>A show without its enrichment.\<close>

definition core :: "show_entry \<Rightarrow> show_entry" where
  "core sh = sh\<lparr>bandcampUrl := Absent, bandcamp := Absent\<rparr>"

text \<open>
  The row and the column of the field that starts after a prefix of the input: the
  numbers of the rows and of the fields of the open row that the prefix completes.
\<close>

definition field_row :: "string \<Rightarrow> nat" where
  "field_row front = length (rows (parseCSV_loop front csv_init))"

definition field_column :: "string \<Rightarrow> nat" where
  "field_column front = length (current (parseCSV_loop front csv_init))"

text \<open>
  What ECMAScript requires of \<^verbatim>\<open>Array.prototype.sort\<close> for a comparison like that of the
  program: when the comparison is the difference of an integer key on the elements of the
  list, the result is the stable sort of the list by that key.
\<close>

definition sorts_by_key :: "(('a \<Rightarrow> 'a \<Rightarrow> int option) \<Rightarrow> 'a list \<Rightarrow> 'a list) \<Rightarrow> bool" where
  "sorts_by_key array_sort =
    (\<forall>compare key xs.
       (\<forall>x\<in>set xs. \<forall>y\<in>set xs. compare x y = Some (key x - key y)) \<longrightarrow>
       array_sort compare xs = sort_key key xs)"

section \<open>Example inputs\<close>

text \<open>
  Pages, URLs, spreadsheet responses and runtimes at which the theorems are instantiated.
  The network of \<open>steady_runtime\<close> always answers; that of \<open>flaky_runtime\<close> fails on its
  first request and answers afterwards. The runtimes read dates with \<open>iso_date\<close> and
  sort with \<open>v8_sort\<close>.
\<close>

definition tags_page :: string where
  \<open>tags_page = ''class="tralbum-tags"><a>punk</a></div>data-tralbum="x"<a class="tag">weird</a><a class="tag"> Minneapolis</a>''\<close>

definition tags_json :: "string \<Rightarrow> json option" where
  "tags_json s = Some (JObj [(''tags'', JArr [JObj [(''name'', JStr ''punk'')],
     JObj [(''name'', JStr ''noise'')], JObj [(''name'', JStr ''lo-fi'')]])])"

definition example_url :: string where
  "example_url = ''https://a.bandcamp.com/album/x''"

definition example_url_upper :: string where
  "example_url_upper = ''https://A.bandcamp.com/album/x''"

definition steady_runtime :: "nat runtime" where
  "steady_runtime =
    \<lparr>JSON_parse = (\<lambda>s. None), Date_parse = iso_date,
     fetchUrl = (\<lambda>url w. (Some ''album=5'', Suc w)), Array_sort = v8_sort\<rparr>"

definition flaky_runtime :: "nat runtime" where
  "flaky_runtime =
    \<lparr>JSON_parse = (\<lambda>s. None), Date_parse = iso_date,
     fetchUrl = (\<lambda>url w. (if w = 0 then None else Some ''album=5'', Suc w)),
     Array_sort = v8_sort\<rparr>"

definition no_embed_page :: string where
  \<open>no_embed_page = ''<span itemprop="byArtist">Foo</span><meta property="og:image" content="i.png">''\<close>

definition byline_runtime :: "nat runtime" where
  "byline_runtime =
    \<lparr>JSON_parse = (\<lambda>s. None), Date_parse = iso_date,
     fetchUrl = (\<lambda>url w. (Some no_embed_page, Suc w)), Array_sort = v8_sort\<rparr>"

definition fresh :: "nat pipeline" where
  "fresh = \<lparr>bandcampCache = Map.empty, cacheHits = 0, cacheMisses = 0, world = 0, requests = []\<rparr>"

definition first_run :: "media list \<times> nat pipeline" where
  "first_run = url_loop steady_runtime [example_url, example_url_upper] fresh"

definition venues_csv :: csv_response where
  "venues_csv = Response 200 ''Name,Address\<newline>V,1 Main St\<newline>''"

definition inherited_csv :: csv_response where
  "inherited_csv = Response 200
     ''Date,Venue,Title\<newline>2025-11-01,constructor,A\<newline>2025-10-15,V,\<newline>''"

definition undated_csv :: csv_response where
  "undated_csv = Response 200
     ''Date,Venue,Title\<newline>2025-11-01,V,A\<newline>TBA,V,B\<newline>2025-10-15,V,C\<newline>''"

definition dated_csv :: csv_response where
  "dated_csv = Response 200
     ''Date,Venue,Title\<newline>2025-11-01,V,A\<newline>2025-10-15,V,B\<newline>2025-11-01,V,C\<newline>''"

section \<open>Properties of the regular expressions\<close>

lemma rx_find_first:
  "rx_find re s = Some m \<Longrightarrow> i < length (pre m) \<Longrightarrow> rx_at re (drop i s) = None"
proof (induction s arbitrary: m i)
  case Nil
  then show ?case by (auto split: option.splits)
next
  case (Cons c cs)
  show ?case
  proof (cases "rx_at re (c # cs)")
    case None
    with Cons.prems(1) obtain m' where m': "rx_find re cs = Some m'" "m = m'\<lparr>pre := c # pre m'\<rparr>"
      by auto
    show ?thesis
    proof (cases i)
      case 0
      with None show ?thesis by simp
    next
      case (Suc j)
      with Cons.prems(2) m' have "j < length (pre m')" by simp
      from Cons.IH [OF m'(1) this] Suc show ?thesis by simp
    qed
  next
    case (Some wg)
    with Cons.prems show ?thesis by (cases wg) auto
  qed
qed

lemma rx_find_at:
  "rx_find re s = Some m \<Longrightarrow> rx_at re (drop (length (pre m)) s) = Some (whole m, group1 m)"
proof (induction s arbitrary: m)
  case Nil
  then show ?case by (auto split: option.splits)
next
  case (Cons c cs)
  show ?case
  proof (cases "rx_at re (c # cs)")
    case None
    with Cons.prems(1) obtain m' where m': "rx_find re cs = Some m'" "m = m'\<lparr>pre := c # pre m'\<rparr>"
      by auto
    from Cons.IH [OF m'(1)] m'(2) show ?thesis by simp
  next
    case (Some wg)
    with Cons.prems show ?thesis by (cases wg) auto
  qed
qed

lemma rx_find_None:
  "rx_find re s = None \<longleftrightarrow> (\<forall>i. rx_at re (drop i s) = None)"
proof (induction s)
  case Nil
  show ?case by (simp split: option.splits prod.splits)
next
  case (Cons c cs)
  have split: "(\<forall>i. rx_at re (drop i (c # cs)) = None) \<longleftrightarrow>
      rx_at re (c # cs) = None \<and> (\<forall>i. rx_at re (drop i cs) = None)"
  proof
    assume a: "\<forall>i. rx_at re (drop i (c # cs)) = None"
    have "rx_at re (c # cs) = None" using a [rule_format, of 0] by simp
    moreover have "rx_at re (drop i cs) = None" for i using a [rule_format, of "Suc i"] by simp
    ultimately show "rx_at re (c # cs) = None \<and> (\<forall>i. rx_at re (drop i cs) = None)" by blast
  next
    assume a: "rx_at re (c # cs) = None \<and> (\<forall>i. rx_at re (drop i cs) = None)"
    show "\<forall>i. rx_at re (drop i (c # cs)) = None"
    proof
      fix i show "rx_at re (drop i (c # cs)) = None"
        using a by (cases i) simp_all
    qed
  qed
  show ?case
  proof (cases "rx_at re (c # cs)")
    case None
    then have h: "rx_find re (c # cs) = None \<longleftrightarrow> rx_find re cs = None" by simp
    show ?thesis by (simp only: split h Cons.IH None simp_thms)
  next
    case (Some wg)
    then have h: "rx_find re (c # cs) \<noteq> None" by (cases wg) simp
    from Some have "rx_at re (c # cs) \<noteq> None" by simp
    with h show ?thesis by (simp only: split simp_thms)
  qed
qed

lemma rx_at_trailing_slash:
  "rx_at trailing_slash_re s = (if s = ''/'' then Some (''/'', []) else None)"
  by (cases s) (auto simp: rx_at_def trailing_slash_re_def canon_def)

lemma rx_find_trailing_slash:
  "rx_find trailing_slash_re s =
    (if s \<noteq> [] \<and> last s = CHR ''/''
     then Some \<lparr>pre = butlast s, whole = ''/'', group1 = [], post = []\<rparr> else None)"
proof (induction s)
  case Nil
  then show ?case by (simp add: rx_at_trailing_slash)
next
  case (Cons c cs)
  then show ?case by (cases cs) (auto simp: rx_at_trailing_slash)
qed

lemma replace_trailing_slash: "rx_replace trailing_slash_re [] url = strip_slash url"
  by (simp add: rx_replace_def rx_find_trailing_slash strip_slash_def)

lemma rx_run_many_last:
  "rx_run ci [Many True cl] s acc = Some [acc @ takeWhile (cls_mem ci cl) s]"
  by (induction s arbitrary: acc) auto

lemma map_option_append_Nil: "map_option ((@) []) x = x"
  by (cases x) auto

lemma rx_run_lit:
  "rx_run False (lit w @ r) s [] =
    (if take (length w) s = w
     then map_option ((@) (map (\<lambda>c. [c]) w)) (rx_run False r (drop (length w) s) [])
     else None)"
proof (induction w arbitrary: s)
  case Nil
  show ?case by (simp add: lit_def map_option_append_Nil)
next
  case (Cons x w)
  then show ?case
    by (cases s) (auto simp: lit_def canon_def option.map_comp comp_def)
qed

lemma id_tail:
  assumes "rx_run False (Cls (OneOf ''=:'') # many1 Digit) t [] = Some parts"
  shows "\<exists>sep d u. t = sep # d # u \<and> (sep = CHR ''='' \<or> sep = CHR '':'') \<and> is_digit d \<and>
    parts = [[sep], [d], takeWhile is_digit u]"
proof (cases t)
  case Nil
  with assms show ?thesis by simp
next
  case t: (Cons sep v)
  show ?thesis
  proof (cases v)
    case Nil
    with t assms show ?thesis by (simp add: many1_def split: if_splits)
  next
    case (Cons d u)
    have "cls_mem False Digit = is_digit" by (rule ext) (simp add: is_digit_def)
    with t Cons assms show ?thesis
      by (auto simp add: many1_def rx_run_many_last canon_def simp del: rx_run.simps(4)
          split: if_splits)
  qed
qed

lemma concat_singletons: "concat (map (\<lambda>c. [c]) w) = w"
  by (induction w) auto

lemma id_re_at:
  assumes "rx_at (Regex False (lit kw @ [Cls (OneOf ''=:'')]) (many1 Digit) []) s = Some (w, g)"
  shows "\<exists>sep rest. (sep = CHR ''='' \<or> sep = CHR '':'') \<and> s = kw @ sep # g @ rest \<and>
    w = kw @ sep # g \<and> g \<noteq> [] \<and> (\<forall>c\<in>set g. is_digit c) \<and>
    (rest = [] \<or> \<not> is_digit (hd rest))"
proof -
  let ?t = "drop (length kw) s"
  let ?r = "Cls (OneOf ''=:'') # many1 Digit"
  have len: "length (lit kw) = length kw" by (simp add: lit_def)
  have len2: "length (many1 Digit) = Suc (Suc 0)" by (simp add: many1_def)
  from assms obtain ps where ps: "rx_run False (lit kw @ ?r) s [] = Some ps"
    and w: "w = concat ps" and g: "g = concat (take (Suc (Suc 0)) (drop (Suc (length kw)) ps))"
    unfolding rx_at_def by (auto simp: len len2 split: option.splits)
  have eq: "rx_run False (lit kw @ ?r) s [] =
    (if take (length kw) s = kw
     then map_option ((@) (map (\<lambda>c. [c]) kw)) (rx_run False ?r ?t [])
     else None)" by (rule rx_run_lit)
  from ps eq have a: "take (length kw) s = kw" by (cases "take (length kw) s = kw") simp_all
  with ps eq obtain parts where parts: "rx_run False ?r ?t [] = Some parts"
    and ps': "ps = map (\<lambda>c. [c]) kw @ parts"
    by (cases "rx_run False ?r ?t []") simp_all
  from id_tail [OF parts] obtain sep d u where t: "?t = sep # d # u"
    and sep: "sep = CHR ''='' \<or> sep = CHR '':''" and d: "is_digit d"
    and p: "parts = [[sep], [d], takeWhile is_digit u]"
    by blast
  have s: "s = kw @ sep # d # u" using a t by (metis append_take_drop_id)
  from g p ps' have g': "g = d # takeWhile is_digit u" by simp
  from w p ps' have w': "w = kw @ sep # g" by (simp add: g' concat_singletons)
  have "u = takeWhile is_digit u @ dropWhile is_digit u" by simp
  with s g' have "s = kw @ sep # g @ dropWhile is_digit u" by simp
  moreover have "dropWhile is_digit u = [] \<or> \<not> is_digit (hd (dropWhile is_digit u))"
    by (metis hd_dropWhile)
  moreover have "\<forall>c\<in>set g. is_digit c" using g' d by (auto dest: set_takeWhileD)
  ultimately show ?thesis using sep w' g' by blast
qed

lemma id_found:
  assumes "rx_find (Regex False (lit kw @ [Cls (OneOf ''=:'')]) (many1 Digit) []) html = Some a"
  shows "group1 a \<noteq> [] \<and> (\<forall>c\<in>set (group1 a). is_digit c) \<and>
    (\<exists>sep. (sep = CHR ''='' \<or> sep = CHR '':'') \<and> html = pre a @ kw @ sep # group1 a @ post a)"
proof -
  from rx_find_at [OF assms] id_re_at [of kw "drop (length (pre a)) html" "whole a" "group1 a"]
  obtain sep where sep: "sep = CHR ''='' \<or> sep = CHR '':''"
    and w: "whole a = kw @ sep # group1 a" and g: "group1 a \<noteq> []"
    and dig: "\<forall>c\<in>set (group1 a). is_digit c"
    by blast
  from rx_find_split [OF assms] have h: "html = pre a @ whole a @ post a" .
  with w have "html = pre a @ kw @ sep # group1 a @ post a" by simp
  with sep g dig show ?thesis by blast
qed

lemma many_then_chr:
  "rx_run False [Many True (NotChar q), Chr q] s acc =
    (case dropWhile (\<lambda>c. c \<noteq> q) s of
       [] \<Rightarrow> None
     | x # rest \<Rightarrow> Some [acc @ takeWhile (\<lambda>c. c \<noteq> q) s, [q]])"
proof (induction s arbitrary: acc)
  case Nil
  show ?case by (subst rx_run.simps(4)) (simp del: rx_run.simps(4))
next
  case (Cons c cs)
  note ih = Cons.IH
  show ?case
  proof (cases "c = q")
    case True
    then show ?thesis by (subst rx_run.simps(4)) (simp add: canon_def del: rx_run.simps(4))
  next
    case False
    have eq: "rx_run False [Many True (NotChar q), Chr q] (c # cs) acc =
      (case rx_run False [Many True (NotChar q), Chr q] cs (acc @ [c]) of
         Some m \<Rightarrow> Some m
       | None \<Rightarrow> map_option ((#) acc) (rx_run False [Chr q] (c # cs) []))"
      using False by (subst rx_run.simps(4)) (simp add: canon_def del: rx_run.simps(4))
    have d: "dropWhile (\<lambda>c. c \<noteq> q) (c # cs) = dropWhile (\<lambda>c. c \<noteq> q) cs"
      and t: "takeWhile (\<lambda>c. c \<noteq> q) (c # cs) = c # takeWhile (\<lambda>c. c \<noteq> q) cs"
      using False by simp_all
    have stop: "rx_run False [Chr q] (c # cs) [] = None" using False by (simp add: canon_def)
    show ?thesis
    proof (cases "dropWhile (\<lambda>c. c \<noteq> q) cs")
      case Nil
      show ?thesis unfolding eq ih d t Nil stop by simp
    next
      case (Cons x rest)
      show ?thesis unfolding eq ih d t Cons by simp
    qed
  qed
qed

lemma href_tail:
  assumes "rx_run False (many1 (NotChar q) @ [Chr q]) t [] = Some parts"
  shows "\<exists>c u rest. t = c # u @ q # rest \<and> c \<noteq> q \<and> q \<notin> set u \<and> parts = [[c], u, [q]]"
proof (cases t)
  case Nil
  with assms show ?thesis by (simp add: many1_def)
next
  case (Cons c v)
  have e: "rx_run False (many1 (NotChar q) @ [Chr q]) (c # v) [] =
      (if c \<noteq> q then map_option ((#) [c]) (rx_run False [Many True (NotChar q), Chr q] v [])
       else None)"
    by (simp add: many1_def canon_def del: rx_run.simps(4))
  from assms Cons e have c: "c \<noteq> q" by (cases "c = q") simp_all
  with assms Cons e obtain ps where ps: "rx_run False [Many True (NotChar q), Chr q] v [] = Some ps"
    and parts: "parts = [c] # ps"
    by (cases "rx_run False [Many True (NotChar q), Chr q] v []") simp_all
  from ps obtain x rest where d: "dropWhile (\<lambda>c. c \<noteq> q) v = x # rest"
    and p: "ps = [takeWhile (\<lambda>c. c \<noteq> q) v, [q]]"
    unfolding many_then_chr by (cases "dropWhile (\<lambda>c. c \<noteq> q) v") simp_all
  have "x = q" using hd_dropWhile [of "\<lambda>c. c \<noteq> q" v] d by simp
  have v: "v = takeWhile (\<lambda>c. c \<noteq> q) v @ q # rest"
    using takeWhile_dropWhile_id [of "\<lambda>c. c \<noteq> q" v] d \<open>x = q\<close> by simp
  have "q \<notin> set (takeWhile (\<lambda>c. c \<noteq> q) v)" by (auto dest: set_takeWhileD)
  with Cons c v parts p
  have "t = c # takeWhile (\<lambda>c. c \<noteq> q) v @ q # rest \<and> c \<noteq> q \<and>
      q \<notin> set (takeWhile (\<lambda>c. c \<noteq> q) v) \<and> parts = [[c], takeWhile (\<lambda>c. c \<noteq> q) v, [q]]"
    by (intro conjI) simp_all
  then show ?thesis by (intro exI)
qed

lemma rx_run_lit_Some:
  assumes "rx_run False (lit w @ r) s [] = Some ps"
  shows "\<exists>t ps'. s = w @ t \<and> rx_run False r t [] = Some ps' \<and> ps = map (\<lambda>c. [c]) w @ ps'"
proof -
  have eq: "rx_run False (lit w @ r) s [] =
    (if take (length w) s = w
     then map_option ((@) (map (\<lambda>c. [c]) w)) (rx_run False r (drop (length w) s) [])
     else None)" by (rule rx_run_lit)
  from assms eq have a: "take (length w) s = w" by (cases "take (length w) s = w") simp_all
  with assms eq obtain ps' where "rx_run False r (drop (length w) s) [] = Some ps'"
    and "ps = map (\<lambda>c. [c]) w @ ps'"
    by (cases "rx_run False r (drop (length w) s) []") simp_all
  moreover from a have "s = w @ drop (length w) s" by (metis append_take_drop_id)
  ultimately show ?thesis by (intro exI conjI)
qed

lemma href_re_at:
  assumes "rx_at (Regex False (lit h) (lit kw @ many1 (NotChar q)) [Chr q]) s = Some (w, g)"
  shows "\<exists>c u rest. g = kw @ c # u \<and> c \<noteq> q \<and> q \<notin> set u \<and>
    s = h @ g @ q # rest \<and> w = h @ g @ [q]"
proof -
  have len: "length (lit h) = length h" "length (lit kw) = length kw"
    "length (many1 (NotChar q)) = Suc (Suc 0)"
    by (simp_all add: lit_def many1_def)
  from assms obtain ps where ps: "rx_run False (lit h @ lit kw @ many1 (NotChar q) @ [Chr q]) s [] = Some ps"
    and w: "w = concat ps" and g: "g = concat (take (Suc (Suc (length kw))) (drop (length h) ps))"
    unfolding rx_at_def by (auto simp: len split: option.splits)
  from rx_run_lit_Some [OF ps] obtain t1 ps1 where s: "s = h @ t1"
    and r1: "rx_run False (lit kw @ many1 (NotChar q) @ [Chr q]) t1 [] = Some ps1"
    and p: "ps = map (\<lambda>c. [c]) h @ ps1" by blast
  from rx_run_lit_Some [OF r1] obtain t2 ps2 where t1: "t1 = kw @ t2"
    and r2: "rx_run False (many1 (NotChar q) @ [Chr q]) t2 [] = Some ps2"
    and p1: "ps1 = map (\<lambda>c. [c]) kw @ ps2" by blast
  from href_tail [OF r2] obtain c u rest where t2: "t2 = c # u @ q # rest" and c: "c \<noteq> q"
    and u: "q \<notin> set u" and p2: "ps2 = [[c], u, [q]]" by blast
  from g p p1 p2 have g': "g = kw @ c # u" by (simp add: concat_singletons)
  from w p p1 p2 have w': "w = h @ g @ [q]" by (simp add: concat_singletons g')
  from s t1 t2 have s': "s = h @ g @ q # rest" by (simp add: g')
  from g' c u s' w' show ?thesis by (intro exI conjI)
qed

lemma href_found:
  assumes "rx_find (Regex False (lit h) (lit kw @ many1 (NotChar q)) [Chr q]) html = Some a"
  shows "\<exists>c u. group1 a = kw @ c # u \<and> c \<noteq> q \<and> q \<notin> set u \<and>
    html = pre a @ h @ group1 a @ q # post a"
proof -
  from rx_find_at [OF assms] href_re_at [of h kw q "drop (length (pre a)) html" "whole a" "group1 a"]
  obtain c u where g: "group1 a = kw @ c # u" and c: "c \<noteq> q" and u: "q \<notin> set u"
    and w: "whole a = h @ group1 a @ [q]"
    by blast
  from rx_find_split [OF assms] w have "html = pre a @ h @ group1 a @ q # post a" by simp
  with g c u show ?thesis by (intro exI conjI)
qed

section \<open>Properties of the CSV parser\<close>

lemma parseCSV_loop_append:
  "\<not> (a \<noteq> [] \<and> last a = CHR 0x22 \<and> b \<noteq> [] \<and> hd b = CHR 0x22) \<Longrightarrow>
   parseCSV_loop (a @ b) st = parseCSV_loop b (parseCSV_loop a st)"
proof (induction a st rule: parseCSV_loop.induct)
  case (1 st)
  then show ?case by simp
next
  case (2 c cs st)
  show ?case
  proof (cases cs)
    case Nil
    with 2 show ?thesis by (cases b) auto
  next
    case (Cons d ds)
    with 2 show ?thesis by (auto split: if_splits)
  qed
qed

lemma field_start:
  assumes "front = [] \<or> last front = CHR '','' \<or> last front = CHR 0x0A"
    and "\<not> inQuotes (parseCSV_loop front csv_init)"
  shows "field (parseCSV_loop front csv_init) = []"
proof (cases "front = []")
  case True
  then show ?thesis by (simp add: csv_init_def)
next
  case False
  then obtain p c where pc: "front = p @ [c]" by (metis append_butlast_last_id)
  with assms(1) have c: "c = CHR '','' \<or> c = CHR 0x0A" by auto
  have "parseCSV_loop front csv_init = parseCSV_loop [c] (parseCSV_loop p csv_init)"
    unfolding pc by (rule parseCSV_loop_append) (use c in auto)
  with assms(2) c show ?thesis by (auto split: if_splits)
qed

lemma two_quotes_outside:
  "\<not> inQuotes st \<Longrightarrow> parseCSV_loop [CHR 0x22, CHR 0x22] st = st"
  by simp

text \<open>
  C2: parsing the text that consists of the single quoted field \<^verbatim>\<open>"a,b\nc""d"\<close>, with an
  embedded comma, an embedded line feed and a doubled quote, gives exactly one row with
  exactly one field, whose value is \<^verbatim>\<open>a,b\nc"d\<close>.
\<close>

theorem parseCSV_quoted_field:
  \<open>parseCSV ''"a,b\<newline>c""d"'' = [[''a,b\<newline>c"d'']]\<close>
  by (simp add: parseCSV_def csv_init_def)

theorem parseCSV_quoted_field_witness:
  \<open>length (parseCSV ''"a,b\<newline>c""d"'') = 1 \<and> map length (parseCSV ''"a,b\<newline>c""d"'') = [1]\<close>
  using parseCSV_quoted_field by simp

text \<open>
  C4, as the claim states it: a field whose raw text is the two characters \<^verbatim>\<open>""\<close> would
  give one literal quote. It gives the empty text: in \<^verbatim>\<open>a,"",b\<close> the second field is empty.
\<close>

theorem parseCSV_two_quotes_counterexample:
  \<open>parseCSV ''a,"",b'' = [[''a'', [], ''b'']] \<and> parseCSV ''a,"",b'' \<noteq> [[''a'', ''"'', ''b'']]\<close>
  by (simp add: parseCSV_def csv_init_def)

lemma parseCSV_loop_CR:
  "parseCSV_loop (replicate k (CHR 0x0D) @ s) st = parseCSV_loop s st"
  by (induction k) simp_all

lemma rows_grow: "\<exists>more. rows (parseCSV_loop s st) = rows st @ more"
proof (induction s st rule: parseCSV_loop.induct)
  case (1 st)
  show ?case by simp
next
  case (2 c cs st)
  then show ?case by (auto split: if_splits)
qed

lemma row_grows:
  "(rows (parseCSV_loop s st) = rows st \<and> (\<exists>more. current (parseCSV_loop s st) = current st @ more)) \<or>
   (\<exists>more rest. rows (parseCSV_loop s st) = rows st @ (current st @ more) # rest)"
proof (induction s st rule: parseCSV_loop.induct)
  case (1 st)
  show ?case by simp
next
  case (2 c cs st)
  show ?case
  proof (cases "c = CHR 0x0A \<and> \<not> inQuotes st")
    case True
    let ?st1 = "st\<lparr>rows := rows st @ [current st @ [field st]], current := [], field := []\<rparr>"
    from rows_grow [of cs ?st1] obtain more
      where "rows (parseCSV_loop cs ?st1) = rows ?st1 @ more" ..
    with True have "rows (parseCSV_loop (c # cs) st) = rows st @ (current st @ [field st]) # more"
      by simp
    then show ?thesis by blast
  next
    case False
    with 2 show ?thesis by (auto split: if_splits)
  qed
qed

text \<open>
  C4, amended: a field whose raw text is the two characters \<^verbatim>\<open>""\<close> is read as an empty
  field. The field starts the input or follows a delimiter read outside quotes, and the
  input ends or a delimiter follows it, after carriage returns if any. The rows are those
  of the input without the two characters; the row of the field has the empty text at the
  place of the field, and when the field is alone on a last line that no line feed ends,
  there is no row for it.
\<close>

theorem parseCSV_two_quotes_empty:
  assumes "front = [] \<or> last front = CHR '','' \<or> last front = CHR 0x0A"
    and "\<not> inQuotes (parseCSV_loop front csv_init)"
    and "back = replicate k (CHR 0x0D) @ rest"
    and "rest = [] \<or> hd rest = CHR '','' \<or> hd rest = CHR 0x0A"
  shows "parseCSV (front @ [CHR 0x22, CHR 0x22] @ back) = parseCSV (front @ back) \<and>
    (if rest = [] \<and> field_column front = 0
     then length (parseCSV (front @ [CHR 0x22, CHR 0x22] @ back)) = field_row front
     else field_row front < length (parseCSV (front @ [CHR 0x22, CHR 0x22] @ back)) \<and>
          field_column front < length (parseCSV (front @ [CHR 0x22, CHR 0x22] @ back) ! field_row front) \<and>
          parseCSV (front @ [CHR 0x22, CHR 0x22] @ back) ! field_row front ! field_column front = [])"
proof -
  let ?st = "parseCSV_loop front csv_init"
  let ?end = "parseCSV_loop rest ?st"
  let ?out = "parseCSV (front @ [CHR 0x22, CHR 0x22] @ back)"
  have nq: "back = [] \<or> hd back \<noteq> CHR 0x22"
    using assms(3,4) by (cases k) auto
  have f: "field ?st = []" by (rule field_start [OF assms(1,2)])
  have "parseCSV_loop (front @ [CHR 0x22, CHR 0x22] @ back) csv_init =
      parseCSV_loop ([CHR 0x22, CHR 0x22] @ back) ?st"
    by (rule parseCSV_loop_append) (use assms(1) in auto)
  also have "\<dots> = parseCSV_loop back (parseCSV_loop [CHR 0x22, CHR 0x22] ?st)"
    by (rule parseCSV_loop_append) (use nq in auto)
  also have "parseCSV_loop [CHR 0x22, CHR 0x22] ?st = ?st"
    using assms(2) by (rule two_quotes_outside)
  also have "parseCSV_loop back ?st = ?end"
    unfolding assms(3) by (rule parseCSV_loop_CR)
  finally have with_quotes: "parseCSV_loop (front @ [CHR 0x22, CHR 0x22] @ back) csv_init = ?end" .
  have "parseCSV_loop (front @ back) csv_init = parseCSV_loop back ?st"
    by (rule parseCSV_loop_append) (use assms(1) in auto)
  also have "\<dots> = ?end" unfolding assms(3) by (rule parseCSV_loop_CR)
  finally have without: "parseCSV_loop (front @ back) csv_init = ?end" .
  have 1: "?out = parseCSV (front @ back)"
    by (simp only: parseCSV_def with_quotes without)
  have out: "?out = (if field ?end \<noteq> [] \<or> current ?end \<noteq> []
      then rows ?end @ [current ?end @ [field ?end]] else rows ?end)"
    by (simp only: parseCSV_def with_quotes Let_def)
  have 2: "length ?out = field_row front" if "rest = []" "field_column front = 0"
    using that f unfolding out by (simp add: field_row_def field_column_def)
  have 3: "field_row front < length ?out \<and> field_column front < length (?out ! field_row front) \<and>
      ?out ! field_row front ! field_column front = []" if "\<not> (rest = [] \<and> field_column front = 0)"
  proof (cases rest)
    case Nil
    with that have "current ?st \<noteq> []" by (simp add: field_column_def)
    with Nil f show ?thesis unfolding out
      by (simp add: field_row_def field_column_def nth_append)
  next
    case (Cons sep rest')
    with assms(4) have sep: "sep = CHR '','' \<or> sep = CHR 0x0A" by simp
    show ?thesis
    proof (cases "sep = CHR '',''")
      case True
      let ?st1 = "?st\<lparr>current := current ?st @ [[]], field := []\<rparr>"
      have e: "?end = parseCSV_loop rest' ?st1"
        using True Cons assms(2) f by simp
      from row_grows [of rest' ?st1]
      show ?thesis
      proof
        assume "rows (parseCSV_loop rest' ?st1) = rows ?st1 \<and>
          (\<exists>more. current (parseCSV_loop rest' ?st1) = current ?st1 @ more)"
        then obtain more where r: "rows ?end = rows ?st"
          and c: "current ?end = current ?st @ [] # more"
          unfolding e by auto
        show ?thesis unfolding out
          by (simp add: r c field_row_def field_column_def nth_append)
      next
        assume "\<exists>more tl. rows (parseCSV_loop rest' ?st1) = rows ?st1 @ (current ?st1 @ more) # tl"
        then obtain more tl where r: "rows ?end = rows ?st @ (current ?st @ [] # more) # tl"
          unfolding e by auto
        show ?thesis unfolding out
          by (simp add: r field_row_def field_column_def nth_append)
      qed
    next
      case False
      with sep have lf: "sep = CHR 0x0A" by simp
      let ?st1 = "?st\<lparr>rows := rows ?st @ [current ?st @ [[]]], current := [], field := []\<rparr>"
      have e: "?end = parseCSV_loop rest' ?st1"
        using lf Cons assms(2) f by simp
      from rows_grow [of rest' ?st1] obtain more
        where "rows (parseCSV_loop rest' ?st1) = rows ?st1 @ more" ..
      then have r: "rows ?end = rows ?st @ (current ?st @ [[]]) # more"
        unfolding e by simp
      show ?thesis unfolding out
        by (simp add: r field_row_def field_column_def nth_append)
    qed
  qed
  from 1 2 3 show ?thesis by simp
qed

theorem parseCSV_two_quotes_empty_witness:
  \<open>parseCSV (''a,'' @ ''""'' @ (replicate 1 (CHR 0x0D) @ ''\<newline>b'')) =
     parseCSV (''a,'' @ (replicate 1 (CHR 0x0D) @ ''\<newline>b'')) \<and>
   parseCSV (''a,'' @ ''""'' @ (replicate 1 (CHR 0x0D) @ ''\<newline>b'')) = [[''a'', []], [''b'']] \<and>
   field_row ''a,'' = 0 \<and> field_column ''a,'' = 1 \<and>
   parseCSV (''a,'' @ ''""'' @ (replicate 1 (CHR 0x0D) @ ''\<newline>b'')) ! 0 ! 1 = [] \<and>
   field_row ''a\<newline>'' = 1 \<and> field_column ''a\<newline>'' = 0 \<and>
   length (parseCSV (''a\<newline>'' @ ''""'' @ (replicate 0 (CHR 0x0D) @ []))) = 1 \<and>
   parseCSV (''a\<newline>'' @ ''""'' @ (replicate 0 (CHR 0x0D) @ [])) = [[''a'']]\<close>
proof -
  have 1: "''a,'' = [] \<or> last ''a,'' = CHR '','' \<or> last ''a,'' = CHR 0x0A" by simp
  have 2: "\<not> inQuotes (parseCSV_loop ''a,'' csv_init)" by (simp add: csv_init_def)
  have 3: "replicate 1 (CHR 0x0D) @ ''\<newline>b'' = replicate 1 (CHR 0x0D) @ ''\<newline>b''" by (rule refl)
  have 4: "''\<newline>b'' = [] \<or> hd ''\<newline>b'' = CHR '','' \<or> hd ''\<newline>b'' = CHR 0x0A" by simp
  have p: "field_row ''a,'' = 0" "field_column ''a,'' = 1"
    by (simp_all add: field_row_def field_column_def csv_init_def)
  have e: \<open>parseCSV (''a,'' @ ''""'' @ (replicate 1 (CHR 0x0D) @ ''\<newline>b'')) = [[''a'', []], [''b'']]\<close>
    by (simp add: parseCSV_def csv_init_def)
  have 5: "''a\<newline>'' = [] \<or> last ''a\<newline>'' = CHR '','' \<or> last ''a\<newline>'' = CHR 0x0A" by simp
  have 6: "\<not> inQuotes (parseCSV_loop ''a\<newline>'' csv_init)" by (simp add: csv_init_def)
  have 7: "replicate 0 (CHR 0x0D) @ [] = replicate 0 (CHR 0x0D) @ ([] :: string)" by (rule refl)
  have 8: "([] :: string) = [] \<or> hd ([] :: string) = CHR '','' \<or> hd ([] :: string) = CHR 0x0A"
    by simp
  have q: "field_row ''a\<newline>'' = 1" "field_column ''a\<newline>'' = 0"
    by (simp_all add: field_row_def field_column_def csv_init_def)
  have g: \<open>parseCSV (''a\<newline>'' @ ''""'' @ (replicate 0 (CHR 0x0D) @ [])) = [[''a'']]\<close>
    by (simp add: parseCSV_def csv_init_def)
  from parseCSV_two_quotes_empty [OF 1 2 3 4] p e
  have a: \<open>parseCSV (''a,'' @ ''""'' @ (replicate 1 (CHR 0x0D) @ ''\<newline>b'')) =
     parseCSV (''a,'' @ (replicate 1 (CHR 0x0D) @ ''\<newline>b'')) \<and>
     parseCSV (''a,'' @ ''""'' @ (replicate 1 (CHR 0x0D) @ ''\<newline>b'')) ! 0 ! 1 = []\<close>
    by simp
  from parseCSV_two_quotes_empty [OF 5 6 7 8, THEN conjunct2] q
  have b: \<open>length (parseCSV (''a\<newline>'' @ ''""'' @ (replicate 0 (CHR 0x0D) @ []))) = 1\<close>
    by simp
  from a b p q e g show ?thesis by simp
qed

section \<open>Properties of the metadata extraction\<close>

text \<open>
  C5: when the album identifier pattern matches the page, the embed identifier is the album
  variant with the digits of the first album match as its id, whether or not the track
  pattern matches too and wherever it matches; when only the track pattern matches, it is
  the track variant with the digits of the first track match; when neither matches, it is
  null. The id is a non-empty run of decimal digits that follows \<^verbatim>\<open>album\<close> or \<^verbatim>\<open>track\<close> and
  one of \<^verbatim>\<open>=\<close> and \<^verbatim>\<open>:\<close> in the page, and the pattern matches at no earlier position of the
  page.
\<close>

theorem extractEmbedInfo_album_priority:
  "(\<forall>a. rx_find album_id_re html = Some a \<longrightarrow>
      extractEmbedInfo html = Some \<lparr>embed_type = Album, embed_id = group1 a\<rparr> \<and>
      group1 a \<noteq> [] \<and> (\<forall>c\<in>set (group1 a). is_digit c) \<and>
      (\<exists>sep. (sep = CHR ''='' \<or> sep = CHR '':'') \<and>
         html = pre a @ ''album'' @ sep # group1 a @ post a) \<and>
      (\<forall>i<length (pre a). rx_at album_id_re (drop i html) = None)) \<and>
   (\<forall>t. rx_find album_id_re html = None \<and> rx_find track_id_re html = Some t \<longrightarrow>
      extractEmbedInfo html = Some \<lparr>embed_type = Track, embed_id = group1 t\<rparr> \<and>
      group1 t \<noteq> [] \<and> (\<forall>c\<in>set (group1 t). is_digit c) \<and>
      (\<exists>sep. (sep = CHR ''='' \<or> sep = CHR '':'') \<and>
         html = pre t @ ''track'' @ sep # group1 t @ post t) \<and>
      (\<forall>i<length (pre t). rx_at track_id_re (drop i html) = None)) \<and>
   (rx_find album_id_re html = None \<and> rx_find track_id_re html = None \<longrightarrow>
      extractEmbedInfo html = None)"
proof (intro conjI allI impI)
  fix a assume a: "rx_find album_id_re html = Some a"
  then show "extractEmbedInfo html = Some \<lparr>embed_type = Album, embed_id = group1 a\<rparr>"
    by (simp add: extractEmbedInfo_def)
  from id_found [OF a [unfolded album_id_re_def]]
  show "group1 a \<noteq> []" "\<forall>c\<in>set (group1 a). is_digit c"
    "\<exists>sep. (sep = CHR ''='' \<or> sep = CHR '':'') \<and> html = pre a @ ''album'' @ sep # group1 a @ post a"
    by simp_all
  show "\<And>i. i < length (pre a) \<Longrightarrow> rx_at album_id_re (drop i html) = None"
    using rx_find_first [OF a] by blast
next
  fix t assume t: "rx_find album_id_re html = None \<and> rx_find track_id_re html = Some t"
  then show "extractEmbedInfo html = Some \<lparr>embed_type = Track, embed_id = group1 t\<rparr>"
    by (simp add: extractEmbedInfo_def)
  from t have "rx_find track_id_re html = Some t" by simp
  from id_found [OF this [unfolded track_id_re_def]]
  show "group1 t \<noteq> []" "\<forall>c\<in>set (group1 t). is_digit c"
    "\<exists>sep. (sep = CHR ''='' \<or> sep = CHR '':'') \<and> html = pre t @ ''track'' @ sep # group1 t @ post t"
    by simp_all
  show "\<And>i. i < length (pre t) \<Longrightarrow> rx_at track_id_re (drop i html) = None"
    using rx_find_first [OF \<open>rx_find track_id_re html = Some t\<close>] by blast
next
  assume "rx_find album_id_re html = None \<and> rx_find track_id_re html = None"
  then show "extractEmbedInfo html = None" by (simp add: extractEmbedInfo_def)
qed

text \<open>
  The three cases at pages of one line: the track pattern before the album pattern, the
  track pattern alone, and neither.
\<close>

theorem extractEmbedInfo_album_priority_witness:
  "extractEmbedInfo ''track=5 album:7'' = Some \<lparr>embed_type = Album, embed_id = ''7''\<rparr> \<and>
   extractEmbedInfo ''x track=5'' = Some \<lparr>embed_type = Track, embed_id = ''5''\<rparr> \<and>
   extractEmbedInfo ''album'' = None"
proof -
  have a: "rx_find album_id_re ''track=5 album:7'' =
      Some \<lparr>pre = ''track=5 '', whole = ''album:7'', group1 = ''7'', post = []\<rparr>"
    by code_simp
  have b: "rx_find album_id_re ''x track=5'' = None \<and> rx_find track_id_re ''x track=5'' =
      Some \<lparr>pre = ''x '', whole = ''track=5'', group1 = ''5'', post = []\<rparr>"
    by code_simp
  have c: "rx_find album_id_re ''album'' = None \<and> rx_find track_id_re ''album'' = None"
    by code_simp
  note t1 = extractEmbedInfo_album_priority [of "''track=5 album:7''"]
  note t2 = extractEmbedInfo_album_priority [of "''x track=5''"]
  note t3 = extractEmbedInfo_album_priority [of "''album''"]
  from t1 [THEN conjunct1, rule_format, OF a, THEN conjunct1]
  have 1: "extractEmbedInfo ''track=5 album:7'' = Some \<lparr>embed_type = Album, embed_id = ''7''\<rparr>"
    by simp
  from t2 [THEN conjunct2, THEN conjunct1, rule_format, OF b, THEN conjunct1]
  have 2: "extractEmbedInfo ''x track=5'' = Some \<lparr>embed_type = Track, embed_id = ''5''\<rparr>"
    by simp
  from t3 [THEN conjunct2, THEN conjunct2, rule_format, OF c]
  have 3: "extractEmbedInfo ''album'' = None" .
  from 1 2 3 show ?thesis by (intro conjI)
qed

text \<open>
  The latest-release discovery returns the path of the first album link if one matches,
  otherwise the path of the first track link if one matches, otherwise null. The path is
  the value of the first \<^verbatim>\<open>href\<close> attribute in double quotes whose value begins with
  \<^verbatim>\<open>/album/\<close>, respectively \<^verbatim>\<open>/track/\<close>, and goes on with at least one more character; the URL
  returned is the artist URL as it was given, without its one trailing slash if it has
  one, followed by the path.
\<close>

lemma extractLatestRelease_first_link:
  \<open>extractLatestRelease html baseUrl =
     (case rx_find album_href_re html of
        Some a \<Rightarrow> Some (strip_slash baseUrl @ group1 a)
      | None \<Rightarrow>
         (case rx_find track_href_re html of
            Some t \<Rightarrow> Some (strip_slash baseUrl @ group1 t)
          | None \<Rightarrow> None)) \<and>
   (\<forall>a. rx_find album_href_re html = Some a \<longrightarrow>
      (\<exists>c u. group1 a = ''/album/'' @ c # u \<and> CHR 0x22 \<notin> set (c # u) \<and>
         html = pre a @ ''href="'' @ group1 a @ ''"'' @ post a) \<and>
      (\<forall>i<length (pre a). rx_at album_href_re (drop i html) = None)) \<and>
   (\<forall>t. rx_find track_href_re html = Some t \<longrightarrow>
      (\<exists>c u. group1 t = ''/track/'' @ c # u \<and> CHR 0x22 \<notin> set (c # u) \<and>
         html = pre t @ ''href="'' @ group1 t @ ''"'' @ post t) \<and>
      (\<forall>i<length (pre t). rx_at track_href_re (drop i html) = None))\<close>
proof (intro conjI allI impI)
  show "extractLatestRelease html baseUrl =
     (case rx_find album_href_re html of
        Some a \<Rightarrow> Some (strip_slash baseUrl @ group1 a)
      | None \<Rightarrow>
         (case rx_find track_href_re html of
            Some t \<Rightarrow> Some (strip_slash baseUrl @ group1 t)
          | None \<Rightarrow> None))"
    by (simp add: extractLatestRelease_def replace_trailing_slash Let_def split: option.splits)
next
  fix a assume a: "rx_find album_href_re html = Some a"
  from href_found [OF a [unfolded album_href_re_def]]
  show \<open>\<exists>c u. group1 a = ''/album/'' @ c # u \<and> CHR 0x22 \<notin> set (c # u) \<and>
      html = pre a @ ''href="'' @ group1 a @ ''"'' @ post a\<close>
    by auto
  show "\<And>i. i < length (pre a) \<Longrightarrow> rx_at album_href_re (drop i html) = None"
    using rx_find_first [OF a] by blast
next
  fix t assume t: "rx_find track_href_re html = Some t"
  from href_found [OF t [unfolded track_href_re_def]]
  show \<open>\<exists>c u. group1 t = ''/track/'' @ c # u \<and> CHR 0x22 \<notin> set (c # u) \<and>
      html = pre t @ ''href="'' @ group1 t @ ''"'' @ post t\<close>
    by auto
  show "\<And>i. i < length (pre t) \<Longrightarrow> rx_at track_href_re (drop i html) = None"
    using rx_find_first [OF t] by blast
qed

text \<open>
  C3: the claim has the path resolved against the origin of the artist URL. At the artist
  URL \<^verbatim>\<open>https://a.bandcamp.com/music\<close>, whose origin is \<^verbatim>\<open>https://a.bandcamp.com\<close>, and a page
  that links \<^verbatim>\<open>/album/x\<close>, the function returns \<^verbatim>\<open>https://a.bandcamp.com/music/album/x\<close>, the
  path appended to the whole URL, and not \<^verbatim>\<open>https://a.bandcamp.com/album/x\<close>.
\<close>

theorem extractLatestRelease_artist_path:
  \<open>url_origin ''https://a.bandcamp.com/music'' = ''https://a.bandcamp.com'' \<and>
   extractLatestRelease ''<a href="/album/x">'' ''https://a.bandcamp.com/music'' =
     Some ''https://a.bandcamp.com/music/album/x'' \<and>
   extractLatestRelease ''<a href="/album/x">'' ''https://a.bandcamp.com/music'' \<noteq>
     Some (url_origin ''https://a.bandcamp.com/music'' @ ''/album/x'')\<close>
  by code_simp

lemma set_dedup_first: "set (dedup_first xs) = set xs"
  by (induction xs) auto

lemma distinct_dedup_first: "distinct (dedup_first xs)"
  by (induction xs) (auto simp: set_dedup_first)

lemma push_link_tag: "push_link allTags link = push_tag allTags (JStr (link_text link))"
  by (simp add: push_link_def push_tag_def link_text_def Let_def)

lemma foldl_push_link:
  "foldl push_link allTags links = foldl push_tag allTags (map (\<lambda>link. JStr (link_text link)) links)"
  by (induction links arbitrary: allTags) (simp_all add: push_link_tag)

lemma push_names_fold: "push_names allTags tags = foldl push_tag allTags (tag_names tags)"
proof (induction tags arbitrary: allTags)
  case Nil
  show ?case by simp
next
  case (Cons tag tags)
  show ?case
  proof (cases "js_prop tag ''name''")
    case None
    then show ?thesis by simp
  next
    case (Some v)
    then show ?thesis by (cases v) (simp_all add: Cons.IH push_tag_def)
  qed
qed

lemma pattern1_fold: "pattern1 html allTags = foldl push_tag allTags (candidates1 html)"
  by (simp add: pattern1_def candidates1_def foldl_push_link split: option.splits)

lemma pattern2_fold:
  "pattern2 parse html allTags = foldl push_tag allTags (candidates2 parse html)"
proof (cases "rx_find data_tralbum_re html")
  case None
  then show ?thesis by (simp add: pattern2_def candidates2_def)
next
  case (Some m)
  let ?decoded = "rx_replace_all amp_re ''&'' (rx_replace_all quot_re [CHR 0x22] (group1 m))"
  show ?thesis
  proof (cases "parse ?decoded")
    case None
    with Some show ?thesis by (simp add: pattern2_def candidates2_def)
  next
    case data: (Some data)
    show ?thesis
    proof (cases "js_prop data ''tags''")
      case None
      with Some data show ?thesis by (simp add: pattern2_def candidates2_def)
    next
      case pr: (Some v)
      show ?thesis
      proof (cases v)
        case None
        with Some data pr show ?thesis by (simp add: pattern2_def candidates2_def)
      next
        case tags: (Some tags)
        with Some data pr show ?thesis
          by (cases tags) (simp_all add: pattern2_def candidates2_def push_names_fold)
      qed
    qed
  qed
qed

lemma pattern3_fold: "pattern3 html allTags = foldl push_tag allTags (candidates3 html)"
  by (simp add: pattern3_def candidates3_def foldl_push_link)

lemma slice_butlast: "slice 0 (- 1) xs = butlast xs"
  by (cases xs) (simp_all add: slice_def Let_def butlast_conv_take)

lemma slice_take4: "slice 0 4 xs = take 4 xs"
proof (cases "4 \<le> length xs")
  case True
  then show ?thesis by (simp add: slice_def Let_def min_def)
next
  case False
  then show ?thesis by (simp add: slice_def Let_def min_def)
qed

lemma texts_append: "texts (xs @ ys) = texts xs @ texts ys"
  by (induction xs rule: texts.induct) auto

lemma JStr_in_set: "JStr s \<in> set vs \<longleftrightarrow> s \<in> set (texts vs)"
  by (induction vs rule: texts.induct) auto

lemma texts_push_other:
  "\<forall>s. c \<noteq> JStr s \<Longrightarrow> texts (push_tag acc c) = texts acc \<and> texts (c # cs) = texts cs"
  by (cases c) (simp_all add: push_tag_def texts_append)

lemma filter_notin_neq:
  "s \<in> A \<Longrightarrow> filter (\<lambda>x. x \<noteq> s \<and> x \<notin> A) xs = filter (\<lambda>t. t \<notin> A) xs"
  by (rule filter_cong) auto

lemma texts_merge:
  "texts (foldl push_tag acc cs) =
    texts acc @ filter (\<lambda>s. s \<notin> set (texts acc)) (dedup_first (filter (\<lambda>s. s \<noteq> []) (texts cs)))"
proof (induction cs arbitrary: acc)
  case Nil
  then show ?case by simp
next
  case (Cons c cs)
  let ?rest = "dedup_first (filter (\<lambda>s. s \<noteq> []) (texts cs))"
  have step: "texts (foldl push_tag acc (c # cs)) =
      texts (push_tag acc c) @ filter (\<lambda>s. s \<notin> set (texts (push_tag acc c))) ?rest"
    using Cons.IH [of "push_tag acc c"] by simp
  show ?case
  proof (cases "\<exists>s. c = JStr s")
    case False
    then have "\<forall>s. c \<noteq> JStr s" by blast
    from texts_push_other [OF this, of acc cs] step show ?thesis by simp
  next
    case True
    then obtain s where c: "c = JStr s" by blast
    consider (empty) "s = []" | (seen) "s \<noteq> []" "s \<in> set (texts acc)"
      | (new) "s \<noteq> []" "s \<notin> set (texts acc)" by blast
    then show ?thesis
    proof cases
      case empty
      then have "push_tag acc c = acc" by (simp add: push_tag_def c)
      with step empty c show ?thesis by simp
    next
      case seen
      then have "push_tag acc c = acc" by (simp add: push_tag_def c JStr_in_set)
      with step seen c show ?thesis by (simp add: filter_notin_neq)
    next
      case new
      then have "push_tag acc c = acc @ [JStr s]" by (simp add: push_tag_def c JStr_in_set)
      with step new c show ?thesis by (simp add: texts_append conj_commute)
    qed
  qed
qed

lemma texts_merge_empty:
  "texts (foldl push_tag [] cs) = dedup_first (filter (\<lambda>s. s \<noteq> []) (texts cs))"
  by (simp add: texts_merge)

text \<open>
  C1: the tag and location extraction merges the candidates of the three strategies, in
  the order of the strategies, into one list: a candidate is appended when it is truthy and
  not yet in the list. The texts of the merged list are the non-empty candidate texts
  without the later copies of a text, in the order in which they were first seen, and no
  text occurs twice. The last element of the merged list is the location, null when the
  list is empty, and the first four of the elements before the last are the genres.
\<close>

theorem extractGenresAndLocation_merge:
  "extractGenresAndLocation parse html =
     (let allTags = foldl push_tag [] (candidates1 html @ candidates2 parse html @ candidates3 html)
      in (take 4 (butlast allTags), if allTags = [] then None else Some (last allTags))) \<and>
   texts (foldl push_tag [] (candidates1 html @ candidates2 parse html @ candidates3 html)) =
     dedup_first (filter (\<lambda>s. s \<noteq> [])
       (texts (candidates1 html @ candidates2 parse html @ candidates3 html))) \<and>
   distinct (texts (foldl push_tag [] (candidates1 html @ candidates2 parse html @ candidates3 html)))"
proof -
  let ?all = "foldl push_tag [] (candidates1 html @ candidates2 parse html @ candidates3 html)"
  have m: "pattern3 html (pattern2 parse html (pattern1 html [])) = ?all"
    by (simp add: pattern1_fold pattern2_fold pattern3_fold)
  have l: "?all \<noteq> [] \<Longrightarrow> ?all ! (length ?all - 1) = last ?all"
    by (simp add: last_conv_nth)
  have "extractGenresAndLocation parse html =
      (take 4 (butlast ?all), if ?all = [] then None else Some (last ?all))"
    unfolding extractGenresAndLocation_def m Let_def slice_butlast slice_take4
    using l by simp
  then show ?thesis
    by (simp only: Let_def texts_merge_empty distinct_dedup_first simp_thms)
qed

text \<open>
  The theorem at a page whose three strategies give punk; punk, noise and lo-fi; weird and
  Minneapolis: the genres are the first four of the merged list and the location is
  Minneapolis. At the empty page the genres are empty and the location is null.
\<close>

theorem extractGenresAndLocation_merge_witness:
  "extractGenresAndLocation tags_json tags_page =
     ([JStr ''punk'', JStr ''noise'', JStr ''lo-fi'', JStr ''weird''], Some (JStr ''Minneapolis'')) \<and>
   extractGenresAndLocation tags_json [] = ([], None)"
proof -
  have 1: "foldl push_tag [] (candidates1 tags_page @ candidates2 tags_json tags_page @
      candidates3 tags_page) =
      [JStr ''punk'', JStr ''noise'', JStr ''lo-fi'', JStr ''weird'', JStr ''Minneapolis'']"
    by code_simp
  have 2: "foldl push_tag [] (candidates1 [] @ candidates2 tags_json [] @ candidates3 []) = []"
    by code_simp
  from extractGenresAndLocation_merge [of tags_json tags_page]
    extractGenresAndLocation_merge [of tags_json "[]"]
  show ?thesis unfolding 1 2 by simp
qed

text \<open>
  C10: when the fetches succeed and the embed identifier extraction fails on the page they
  end on, the record returned has null for the embed markup and for the track title, has
  neither an artist nor a thumbnail property, whatever the artist and thumbnail extraction
  find on the page, and carries the genres, the location and the album title of the page.
\<close>

theorem fetchBandcampData_no_embed:
  assumes "url \<noteq> []" and "str_includes ''bandcamp.com'' url"
    and "fetch_page rt url st = (Some pageHtml, st1)"
    and "extractEmbedInfo pageHtml = None"
  shows "fetchBandcampData rt url st =
    (Some \<lparr>embedHtml = None, trackTitle = None, albumTitle = extractAlbumTitle pageHtml,
           artist = Absent, thumbnailUrl = Absent,
           genres = fst (extractGenresAndLocation (JSON_parse rt) pageHtml),
           location = snd (extractGenresAndLocation (JSON_parse rt) pageHtml)\<rparr>, st1)"
  using assms
  by (simp add: fetchBandcampData_def page_metadata_def Let_def split: prod.splits)

text \<open>
  The theorem at a page with a byline and a meta image and no identifier: both are found
  by their extractors and neither is in the record.
\<close>

theorem fetchBandcampData_no_embed_witness:
  "extractArtist no_embed_page = Some ''Foo'' \<and>
   extractThumbnail no_embed_page = Some ''i.png'' \<and>
   fst (fetchBandcampData byline_runtime example_url fresh) =
     Some \<lparr>embedHtml = None, trackTitle = None, albumTitle = None, artist = Absent,
           thumbnailUrl = Absent, genres = [], location = None\<rparr>"
proof -
  have h1: "example_url \<noteq> []" by (simp add: example_url_def)
  have h2: "str_includes ''bandcamp.com'' example_url" by code_simp
  have a: "str_includes ''/album/'' example_url" by code_simp
  have h3: "fetch_page byline_runtime example_url fresh =
      (Some no_embed_page, fresh\<lparr>world := Suc 0, requests := requests fresh @ [example_url]\<rparr>)"
    using a by (simp add: fetch_page_def fetch_def byline_runtime_def fresh_def)
  have h4: "extractEmbedInfo no_embed_page = None" by code_simp
  have e: "extractArtist no_embed_page = Some ''Foo''"
    "extractThumbnail no_embed_page = Some ''i.png''"
    "extractAlbumTitle no_embed_page = None"
    "extractGenresAndLocation (JSON_parse byline_runtime) no_embed_page = ([], None)"
    by code_simp+
  from fetchBandcampData_no_embed [OF h1 h2 h3 h4] e show ?thesis by simp
qed

section \<open>Properties of the metadata fetch pipeline\<close>

lemma url_step_hit:
  "bandcampCache st (toLowerCase url) = Some r \<Longrightarrow>
   url_step rt (data, st) url = (data @ [r], st\<lparr>cacheHits := cacheHits st + 1\<rparr>)"
  by (simp add: url_step_def)

lemma fetch_cache: "bandcampCache (snd (fetch rt url st)) = bandcampCache st"
  by (simp add: fetch_def split: prod.splits)

lemma fetch_page_cache: "bandcampCache (snd (fetch_page rt url st)) = bandcampCache st"
proof (cases "fetch rt url st")
  case (Pair res st1)
  then have c: "bandcampCache st1 = bandcampCache st" using fetch_cache [of rt url st] by simp
  show ?thesis
  proof (cases res)
    case None
    with Pair c show ?thesis by (simp add: fetch_page_def)
  next
    case (Some pageHtml)
    with Pair c fetch_cache [of rt _ st1] show ?thesis
      by (simp add: fetch_page_def split: option.splits)
  qed
qed

lemma fetchBandcampData_cache:
  "bandcampCache (snd (fetchBandcampData rt url st)) = bandcampCache st"
  using fetch_page_cache [of rt url st]
  by (auto simp add: fetchBandcampData_def split: prod.splits option.splits)

lemma url_step_split:
  "url_step rt (data, st) url =
    (data @ fst (url_step rt ([], st) url), snd (url_step rt ([], st) url))"
  by (simp add: url_step_def Let_def split: option.splits prod.splits)

lemma url_step_emits:
  "length (fst (url_step rt ([], st) url)) \<le> 1"
  by (simp add: url_step_def Let_def split: option.splits prod.splits)

lemma url_step_cache_mono:
  "bandcampCache st \<subseteq>\<^sub>m bandcampCache (snd (url_step rt (data, st) url))"
proof (cases "bandcampCache st (toLowerCase url)")
  case (Some r)
  then show ?thesis by (simp add: url_step_def)
next
  case None
  obtain res st1 where f: "fetchBandcampData rt url st = (res, st1)" by (cases "fetchBandcampData rt url st")
  with fetchBandcampData_cache [of rt url st] have c: "bandcampCache st1 = bandcampCache st" by simp
  show ?thesis
  proof (cases res)
    case None
    with \<open>bandcampCache st (toLowerCase url) = None\<close> f c show ?thesis
      by (simp add: url_step_def)
  next
    case (Some d)
    with \<open>bandcampCache st (toLowerCase url) = None\<close> f c show ?thesis
      by (auto simp: url_step_def map_le_def)
  qed
qed

lemma url_step_emitted_cached:
  assumes "url_step rt (data, st) url = (data @ [r], st1)"
  shows "bandcampCache st1 (toLowerCase url) = Some r"
proof (cases "bandcampCache st (toLowerCase url)")
  case (Some r')
  with assms show ?thesis by (auto simp: url_step_def)
next
  case None
  obtain res st2 where f: "fetchBandcampData rt url st = (res, st2)" by (cases "fetchBandcampData rt url st")
  with None assms show ?thesis by (cases res) (auto simp: url_step_def)
qed

lemma loop_hits:
  "\<forall>u\<in>set urls. toLowerCase u \<in> dom (bandcampCache st) \<Longrightarrow>
   foldl (url_step rt) (data, st) urls =
     (data @ map (\<lambda>u. the (bandcampCache st (toLowerCase u))) urls,
      st\<lparr>cacheHits := cacheHits st + length urls\<rparr>)"
proof (induction urls arbitrary: data st)
  case Nil
  then show ?case by simp
next
  case (Cons u urls)
  then obtain r where r: "bandcampCache st (toLowerCase u) = Some r" by auto
  let ?st = "st\<lparr>cacheHits := cacheHits st + 1\<rparr>"
  have "\<forall>u\<in>set urls. toLowerCase u \<in> dom (bandcampCache ?st)" using Cons.prems by simp
  from Cons.IH [OF this, of "data @ [r]"] r show ?case
    by (simp add: url_step_hit)
qed

lemma loop_cache_mono:
  "bandcampCache st \<subseteq>\<^sub>m bandcampCache (snd (foldl (url_step rt) (data, st) urls))"
proof (induction urls arbitrary: data st)
  case Nil
  then show ?case by simp
next
  case (Cons u urls)
  obtain d1 s1 where s: "url_step rt (data, st) u = (d1, s1)" by (cases "url_step rt (data, st) u")
  with url_step_cache_mono [of st rt data u] have "bandcampCache st \<subseteq>\<^sub>m bandcampCache s1" by simp
  with Cons.IH [of s1 d1] s show ?case by (auto intro: map_le_trans)
qed

lemma loop_length:
  "length (fst (foldl (url_step rt) (data, st) urls)) \<le> length data + length urls"
proof (induction urls arbitrary: data st)
  case Nil
  then show ?case by simp
next
  case (Cons u urls)
  obtain d1 s1 where s: "url_step rt (data, st) u = (d1, s1)" by (cases "url_step rt (data, st) u")
  with url_step_split [of rt data st u] url_step_emits [of rt st u]
  have "length d1 \<le> length data + 1" by auto
  with Cons.IH [of d1 s1] s show ?case by simp
qed

lemma loop_all_emitted:
  assumes "foldl (url_step rt) (data, st) urls = (data', st')"
    and "length data' = length data + length urls"
  shows "data' = data @ map (\<lambda>u. the (bandcampCache st' (toLowerCase u))) urls \<and>
    (\<forall>u\<in>set urls. toLowerCase u \<in> dom (bandcampCache st'))"
  using assms
proof (induction urls arbitrary: data st)
  case Nil
  then show ?case by simp
next
  case (Cons u urls)
  obtain d1 s1 where s: "url_step rt (data, st) u = (d1, s1)" by (cases "url_step rt (data, st) u")
  let ?e = "fst (url_step rt ([], st) u)"
  from s url_step_split [of rt data st u] have d1: "d1 = data @ ?e" by simp
  from Cons.prems(1) s have f: "foldl (url_step rt) (d1, s1) urls = (data', st')" by simp
  from loop_length [of rt d1 s1 urls] f have "length data' \<le> length d1 + length urls" by simp
  with Cons.prems(2) d1 url_step_emits [of rt st u] have le: "length ?e = 1" by simp
  then obtain r where e: "?e = [r]" by (cases ?e) auto
  with d1 s have "url_step rt (data, st) u = (data @ [r], s1)" by simp
  from url_step_emitted_cached [OF this] have c1: "bandcampCache s1 (toLowerCase u) = Some r" .
  from loop_cache_mono [of s1 rt d1 urls] f have "bandcampCache s1 \<subseteq>\<^sub>m bandcampCache st'" by simp
  with c1 have c: "bandcampCache st' (toLowerCase u) = Some r"
    by (auto simp: map_le_def dom_def)
  from Cons.prems(2) d1 e have "length data' = length d1 + length urls" by simp
  from Cons.IH [OF f this] d1 e c show ?case by auto
qed

text \<open>
  C6, as the claim states it: a second run with the cache that the first run produced
  would fetch nothing and emit what the first run emitted. A URL whose fetch fails in the
  first run is not cached: the second run fetches it again, and emits a record for it when
  the network has recovered.
\<close>

theorem refetch_after_failure_counterexample:
  "fst (url_loop flaky_runtime [example_url] fresh) = [] \<and>
   requests (snd (url_loop flaky_runtime [example_url] fresh)) = [example_url] \<and>
   length (fst (url_loop flaky_runtime [example_url]
     (snd (url_loop flaky_runtime [example_url] fresh)))) = 1 \<and>
   requests (snd (url_loop flaky_runtime [example_url]
     (snd (url_loop flaky_runtime [example_url] fresh)))) = [example_url, example_url]"
  by code_simp

text \<open>
  C6, amended: for a URL whose lower-cased form is in the cache, the step of the loop emits
  exactly the cached record and changes nothing but the counter of hits: there is no
  fetch, and the cache is as it was. The same holds for a URL whose lower-cased form is in
  the cache at the start of a run, wherever the URL stands in the run. Hence when every
  URL of a first run yielded a record, a second run over the same URLs with the cache that
  the first run produced, on any network, emits the same sequence of records and fetches
  nothing.
\<close>

theorem cache_hit_reuse:
  "(bandcampCache st (toLowerCase url) = Some r \<longrightarrow>
      url_step rt (data, st) url = (data @ [r], st\<lparr>cacheHits := cacheHits st + 1\<rparr>)) \<and>
   (bandcampCache st (toLowerCase url) = Some r \<longrightarrow>
      url_loop rt (us @ [url]) st =
        (fst (url_loop rt us st) @ [r],
         (snd (url_loop rt us st))\<lparr>cacheHits := cacheHits (snd (url_loop rt us st)) + 1\<rparr>)) \<and>
   (url_loop rt1 urls st0 = (data1, st1) \<and> length data1 = length urls \<and>
    bandcampCache st2 = bandcampCache st1 \<longrightarrow>
      url_loop rt2 urls st2 = (data1, st2\<lparr>cacheHits := cacheHits st2 + length urls\<rparr>))"
proof (intro conjI impI)
  assume "bandcampCache st (toLowerCase url) = Some r"
  then show "url_step rt (data, st) url = (data @ [r], st\<lparr>cacheHits := cacheHits st + 1\<rparr>)"
    by (rule url_step_hit)
next
  assume c: "bandcampCache st (toLowerCase url) = Some r"
  let ?p = "url_loop rt us st"
  from loop_cache_mono [of st rt "[]" us]
  have "bandcampCache st \<subseteq>\<^sub>m bandcampCache (snd ?p)" by (simp add: url_loop_def)
  with c have "bandcampCache (snd ?p) (toLowerCase url) = Some r"
    by (auto simp: map_le_def dom_def)
  from url_step_hit [OF this, of rt "fst ?p"]
  show "url_loop rt (us @ [url]) st =
      (fst ?p @ [r], (snd ?p)\<lparr>cacheHits := cacheHits (snd ?p) + 1\<rparr>)"
    by (simp add: url_loop_def)
next
  assume a: "url_loop rt1 urls st0 = (data1, st1) \<and> length data1 = length urls \<and>
    bandcampCache st2 = bandcampCache st1"
  then have "foldl (url_step rt1) ([], st0) urls = (data1, st1)" "length data1 = length [] + length urls"
    by (simp_all add: url_loop_def)
  from loop_all_emitted [OF this]
  have d: "data1 = map (\<lambda>u. the (bandcampCache st1 (toLowerCase u))) urls"
    and k: "\<forall>u\<in>set urls. toLowerCase u \<in> dom (bandcampCache st1)" by simp_all
  from k a have "\<forall>u\<in>set urls. toLowerCase u \<in> dom (bandcampCache st2)" by simp
  from loop_hits [OF this, of rt2 "[]"] d a
  show "url_loop rt2 urls st2 = (data1, st2\<lparr>cacheHits := cacheHits st2 + length urls\<rparr>)"
    by (simp add: url_loop_def)
qed

text \<open>
  The theorem at a first run over a URL and its upper-case variant on a network that
  answers, and at a second run on a network that would fail.
\<close>

theorem cache_hit_reuse_witness:
  "url_step flaky_runtime ([], snd first_run) example_url_upper =
     ([] @ [hd (fst first_run)], (snd first_run)\<lparr>cacheHits := cacheHits (snd first_run) + 1\<rparr>) \<and>
   url_loop flaky_runtime [example_url, example_url_upper] (snd first_run) =
     (fst first_run, (snd first_run)\<lparr>cacheHits :=
        cacheHits (snd first_run) + length [example_url, example_url_upper]\<rparr>) \<and>
   requests (snd (url_loop flaky_runtime [example_url, example_url_upper] (snd first_run))) =
     requests (snd first_run)"
proof -
  have h1: "bandcampCache (snd first_run) (toLowerCase example_url_upper) = Some (hd (fst first_run))"
    by code_simp
  have h2: "url_loop steady_runtime [example_url, example_url_upper] fresh =
      (fst first_run, snd first_run) \<and>
      length (fst first_run) = length [example_url, example_url_upper] \<and>
      bandcampCache (snd first_run) = bandcampCache (snd first_run)"
    by (intro conjI) (simp add: first_run_def, code_simp, rule refl)
  note t = cache_hit_reuse [where st = "snd first_run" and url = example_url_upper
      and r = "hd (fst first_run)" and rt = flaky_runtime and data = "[]"
      and ?rt1.0 = steady_runtime and urls = "[example_url, example_url_upper]" and ?st0.0 = fresh
      and ?data1.0 = "fst first_run" and ?st1.0 = "snd first_run" and ?st2.0 = "snd first_run"
      and ?rt2.0 = flaky_runtime]
  from t [THEN conjunct1, rule_format, OF h1]
  have 1: "url_step flaky_runtime ([], snd first_run) example_url_upper =
     ([] @ [hd (fst first_run)], (snd first_run)\<lparr>cacheHits := cacheHits (snd first_run) + 1\<rparr>)" .
  from t [THEN conjunct2, THEN conjunct2, rule_format, OF h2]
  have 2: "url_loop flaky_runtime [example_url, example_url_upper] (snd first_run) =
     (fst first_run, (snd first_run)\<lparr>cacheHits :=
        cacheHits (snd first_run) + length [example_url, example_url_upper]\<rparr>)" .
  have 3: "requests (snd (url_loop flaky_runtime [example_url, example_url_upper] (snd first_run))) =
     requests (snd first_run)"
    unfolding 2 by simp
  from 1 2 3 show ?thesis by (intro conjI)
qed

lemma url_loop_snoc: "url_loop rt (us @ [u]) st = url_step rt (url_loop rt us st) u"
  by (simp add: url_loop_def)

lemma url_loop_in_order:
  "fst (url_loop rt urls st) =
    concat (map (\<lambda>i. fst (url_step rt ([], snd (url_loop rt (take i urls) st)) (urls ! i)))
      [0..<length urls])"
proof (induction urls rule: rev_induct)
  case Nil
  show ?case by (simp add: url_loop_def)
next
  case (snoc u us)
  let ?f = "\<lambda>xs i. fst (url_step rt ([], snd (url_loop rt (take i xs) st)) (xs ! i))"
  have m: "map (?f (us @ [u])) [0..<length us] = map (?f us) [0..<length us]"
    by (rule map_cong) (auto simp: nth_append)
  have l: "?f (us @ [u]) (length us) = fst (url_step rt ([], snd (url_loop rt us st)) u)"
    by simp
  have "concat (map (?f (us @ [u])) [0..<length (us @ [u])]) =
      concat (map (?f (us @ [u])) [0..<length us]) @ ?f (us @ [u]) (length us)"
    by simp
  also have "\<dots> = concat (map (?f us) [0..<length us]) @
      fst (url_step rt ([], snd (url_loop rt us st)) u)"
    by (simp only: m l)
  also have "\<dots> = fst (url_loop rt us st) @ fst (url_step rt ([], snd (url_loop rt us st)) u)"
    by (simp only: snoc.IH [symmetric])
  also have "\<dots> = fst (url_loop rt (us @ [u]) st)"
    using url_step_split [of rt "fst (url_loop rt us st)" "snd (url_loop rt us st)" u]
    by (simp add: url_loop_snoc)
  finally show ?case by (rule sym)
qed

lemma fetch_error_no_record:
  "fst (fetch_page rt url st) = None \<Longrightarrow> fst (fetchBandcampData rt url st) = None"
  by (cases "fetch_page rt url st") (auto simp: fetchBandcampData_def)

lemma url_step_failure:
  assumes "bandcampCache st (toLowerCase url) = None" and "fst (fetchBandcampData rt url st) = None"
  shows "url_step rt (data, st) url = (data, snd (fetchBandcampData rt url st))"
  using assms by (cases "fetchBandcampData rt url st") (simp add: url_step_def)

lemma build_total:
  "fetchCSV venuesRes = Inr vd \<Longrightarrow> fetchCSV showsRes = Inr sd \<Longrightarrow>
   \<exists>out. build rt venuesRes showsRes loaded w now = Inr out"
  by (simp add: build_def Let_def split: prod.splits)

text \<open>
  C7: when the fetch of a URL that is not cached throws, the step of the loop adds no
  record, and the loop goes on with the remaining URLs from the state that the failed
  fetch left. The sequence emitted for a list of URLs is the concatenation, in the order
  of the URLs, of what each URL emits in the state the loop reaches it in, which is one
  record or none: a URL without a record leaves no entry. Whatever the fetches of the media
  pages do, the build ends with a document when both spreadsheets were fetched.
\<close>

theorem url_failure_skipped:
  "(bandcampCache st (toLowerCase url) = None \<and> fst (fetch_page rt url st) = None \<longrightarrow>
      foldl (url_step rt) (data, st) (url # urls) =
        foldl (url_step rt) (data, snd (fetchBandcampData rt url st)) urls) \<and>
   fst (url_loop rt urls st) =
     concat (map (\<lambda>i. fst (url_step rt ([], snd (url_loop rt (take i urls) st)) (urls ! i)))
       [0..<length urls]) \<and>
   (\<forall>i<length urls.
      length (fst (url_step rt ([], snd (url_loop rt (take i urls) st)) (urls ! i))) \<le> 1) \<and>
   (\<forall>vd sd. fetchCSV venuesRes = Inr vd \<and> fetchCSV showsRes = Inr sd \<longrightarrow>
      (\<exists>out. build rt venuesRes showsRes loaded w now = Inr out))"
proof (intro conjI impI allI)
  assume "bandcampCache st (toLowerCase url) = None \<and> fst (fetch_page rt url st) = None"
  then show "foldl (url_step rt) (data, st) (url # urls) =
      foldl (url_step rt) (data, snd (fetchBandcampData rt url st)) urls"
    by (simp add: url_step_failure fetch_error_no_record)
next
  show "fst (url_loop rt urls st) =
     concat (map (\<lambda>i. fst (url_step rt ([], snd (url_loop rt (take i urls) st)) (urls ! i)))
       [0..<length urls])" by (rule url_loop_in_order)
next
  fix i
  show "length (fst (url_step rt ([], snd (url_loop rt (take i urls) st)) (urls ! i))) \<le> 1"
    by (rule url_step_emits)
next
  fix vd sd
  assume "fetchCSV venuesRes = Inr vd \<and> fetchCSV showsRes = Inr sd"
  then have v: "fetchCSV venuesRes = Inr vd" and s: "fetchCSV showsRes = Inr sd" by simp_all
  show "\<exists>out. build rt venuesRes showsRes loaded w now = Inr out"
    by (rule build_total [OF v s])
qed

text \<open>
  The theorem at two URLs on a network whose first request fails: the first URL leaves no
  record, the second leaves one, and the build of a spreadsheet ends with a document.
\<close>

theorem url_failure_skipped_witness:
  "foldl (url_step flaky_runtime) ([], fresh) (example_url # [example_url_upper]) =
     foldl (url_step flaky_runtime) ([], snd (fetchBandcampData flaky_runtime example_url fresh))
       [example_url_upper] \<and>
   length (fst (url_loop flaky_runtime [example_url, example_url_upper] fresh)) = 1 \<and>
   (\<exists>out. build flaky_runtime venues_csv dated_csv Map.empty 0 ''now'' = Inr out)"
proof -
  have h1: "bandcampCache fresh (toLowerCase example_url) = None \<and>
      fst (fetch_page flaky_runtime example_url fresh) = None"
    by code_simp
  have h2: "fetchCSV venues_csv = Inr [[''V'', ''1 Main St'']] \<and>
      fetchCSV dated_csv = Inr [[''2025-11-01'', ''V'', ''A''], [''2025-10-15'', ''V'', ''B''],
        [''2025-11-01'', ''V'', ''C'']]"
    by code_simp
  have h3: "length (fst (url_loop flaky_runtime [example_url, example_url_upper] fresh)) = 1"
    by code_simp
  note t = url_failure_skipped [where st = fresh and url = example_url and rt = flaky_runtime
      and data = "[]" and urls = "[example_url_upper]" and venuesRes = venues_csv
      and showsRes = dated_csv and loaded = Map.empty and w = 0 and now = "''now''"]
  from t have a: "bandcampCache fresh (toLowerCase example_url) = None \<and>
      fst (fetch_page flaky_runtime example_url fresh) = None \<longrightarrow>
      foldl (url_step flaky_runtime) ([], fresh) (example_url # [example_url_upper]) =
        foldl (url_step flaky_runtime) ([], snd (fetchBandcampData flaky_runtime example_url fresh))
          [example_url_upper]"
    by (rule conjunct1)
  from t have b: "\<forall>vd sd. fetchCSV venues_csv = Inr vd \<and> fetchCSV dated_csv = Inr sd \<longrightarrow>
      (\<exists>out. build flaky_runtime venues_csv dated_csv Map.empty 0 ''now'' = Inr out)"
    by (rule conjunct2 [OF conjunct2 [OF conjunct2]])
  from a h1 have 1: "foldl (url_step flaky_runtime) ([], fresh) (example_url # [example_url_upper]) =
        foldl (url_step flaky_runtime) ([], snd (fetchBandcampData flaky_runtime example_url fresh))
          [example_url_upper]"
    by (rule mp)
  from b [rule_format, OF h2]
  have 2: "\<exists>out. build flaky_runtime venues_csv dated_csv Map.empty 0 ''now'' = Inr out" .
  from 1 h3 2 show ?thesis by (intro conjI)
qed

section \<open>Properties of the show aggregation\<close>

lemma sorts_by_keyD:
  assumes "sorts_by_key array_sort"
    and "\<forall>x\<in>set xs. \<forall>y\<in>set xs. compare x y = Some (key x - key y)"
  shows "array_sort compare xs = sort_key key xs"
  using assms(1) [unfolded sorts_by_key_def, THEN spec, THEN spec, THEN spec, THEN mp, OF assms(2)] .

lemma insertion_point_spec:
  fixes key :: "'a \<Rightarrow> int"
  shows "sorted (map key xs) \<Longrightarrow> \<forall>y\<in>set xs. compare p y = Some (key p - key y) \<Longrightarrow>
    left \<le> right \<Longrightarrow> right \<le> length xs \<Longrightarrow> \<forall>i<left. key (xs ! i) \<le> key p \<Longrightarrow>
    \<forall>i. right \<le> i \<and> i < length xs \<longrightarrow> key p < key (xs ! i) \<Longrightarrow>
    insertion_point compare p xs left right \<le> length xs \<and>
    (\<forall>i<insertion_point compare p xs left right. key (xs ! i) \<le> key p) \<and>
    (\<forall>i. insertion_point compare p xs left right \<le> i \<and> i < length xs \<longrightarrow> key p < key (xs ! i))"
proof (induction compare p xs left right rule: insertion_point.induct)
  case (1 compare pivot xs left right)
  note srt = "1.prems"(1) and cons = "1.prems"(2) and lr = "1.prems"(3) and rl = "1.prems"(4)
    and lo = "1.prems"(5) and hi = "1.prems"(6)
  have mono: "key (xs ! i) \<le> key (xs ! j)" if "i \<le> j" "j < length xs" for i j
    using sorted_nth_mono [OF srt, of i j] that by simp
  show ?case
  proof (cases "left < right")
    case False
    with lr have e: "left = right" by simp
    have ip: "insertion_point compare pivot xs left right = left"
      using False by (subst insertion_point.simps) simp
    show ?thesis unfolding ip using lo hi e rl by simp
  next
    case True
    define mid where "mid = left + (right - left) div 2"
    have m: "left \<le> mid" "mid < right" using True by (simp_all add: mid_def)
    with rl have ml: "mid < length xs" by simp
    then have "xs ! mid \<in> set xs" by simp
    with cons have ord: "sort_compare compare pivot (xs ! mid) = key pivot - key (xs ! mid)"
      by (simp add: sort_compare_def)
    show ?thesis
    proof (cases "sort_compare compare pivot (xs ! mid) < 0")
      case lt: True
      have ip: "insertion_point compare pivot xs left right = insertion_point compare pivot xs left mid"
        using True lt by (subst insertion_point.simps) (simp add: mid_def Let_def)
      have hi': "\<forall>i. mid \<le> i \<and> i < length xs \<longrightarrow> key pivot < key (xs ! i)"
      proof (intro allI impI)
        fix i assume "mid \<le> i \<and> i < length xs"
        then have "key (xs ! mid) \<le> key (xs ! i)" using mono by simp
        with lt ord show "key pivot < key (xs ! i)" by simp
      qed
      from "1.IH"(1) [OF True mid_def lt srt cons m(1) _ lo hi'] ml
      show ?thesis unfolding ip by simp
    next
      case ge: False
      have ip: "insertion_point compare pivot xs left right =
          insertion_point compare pivot xs (mid + 1) right"
        using True ge by (subst insertion_point.simps) (simp add: mid_def Let_def)
      have lo': "\<forall>i<mid + 1. key (xs ! i) \<le> key pivot"
      proof (intro allI impI)
        fix i assume "i < mid + 1"
        then have "key (xs ! i) \<le> key (xs ! mid)" using mono [of i mid] ml by simp
        with ge ord show "key (xs ! i) \<le> key pivot" by simp
      qed
      from "1.IH"(2) [OF True mid_def ge srt cons _ rl lo' hi] m
      show ?thesis unfolding ip by simp
    qed
  qed
qed

lemma binary_insert_sort_key:
  fixes key :: "'a \<Rightarrow> int"
  assumes "\<forall>y\<in>set xs. compare p y = Some (key p - key y)"
  shows "binary_insert compare (sort_key key xs) p = sort_key key (xs @ [p])"
proof -
  let ?s = "sort_key key xs"
  define l where "l = insertion_point compare p ?s 0 (length ?s)"
  have cons: "\<forall>y\<in>set ?s. compare p y = Some (key p - key y)" using assms by simp
  have srt: "sorted (map key ?s)" by simp
  from insertion_point_spec [where key = key and xs = "?s" and compare = compare and p = p
      and left = 0 and right = "length ?s", OF srt cons]
  have len: "l \<le> length ?s" and lo: "\<forall>i<l. key (?s ! i) \<le> key p"
    and hi: "\<forall>i. l \<le> i \<and> i < length ?s \<longrightarrow> key p < key (?s ! i)"
    by (simp_all add: l_def)
  have below: "key x \<le> key p" if "x \<in> set (take l ?s)" for x
  proof -
    from that obtain i where "i < length (take l ?s)" "take l ?s ! i = x"
      by (auto simp: in_set_conv_nth)
    with lo show ?thesis by auto
  qed
  have above: "key p < key x" if "x \<in> set (drop l ?s)" for x
  proof -
    from that obtain i where i: "i < length (drop l ?s)" "drop l ?s ! i = x"
      by (auto simp: in_set_conv_nth)
    then have "?s ! (l + i) = x" "l + i < length ?s" using len by auto
    with hi show ?thesis by (metis le_add1)
  qed
  let ?ys = "take l ?s @ p # drop l ?s"
  have b: "binary_insert compare ?s p = ?ys" by (simp add: binary_insert_def l_def Let_def)
  have split: "?s = take l ?s @ drop l ?s" by simp
  have 1: "mset ?ys = mset (xs @ [p])"
  proof -
    have "mset ?ys = add_mset p (mset (take l ?s @ drop l ?s))" by (simp del: append_take_drop_id)
    then show ?thesis by simp
  qed
  have 2: "filter (\<lambda>x. key k = key x) ?ys = filter (\<lambda>x. key k = key x) (xs @ [p])" for k
  proof -
    have f: "filter (\<lambda>x. key k = key x) (take l ?s) @ filter (\<lambda>x. key k = key x) (drop l ?s) =
        filter (\<lambda>x. key k = key x) xs"
    proof -
      have "filter (\<lambda>x. key k = key x) (take l ?s) @ filter (\<lambda>x. key k = key x) (drop l ?s) =
          filter (\<lambda>x. key k = key x) (take l ?s @ drop l ?s)"
        by (simp only: filter_append)
      also have "\<dots> = filter (\<lambda>x. key x = key k) ?s" by (simp add: eq_commute)
      also have "\<dots> = filter (\<lambda>x. key x = key k) xs" by (rule sort_key_stable)
      finally show ?thesis by (simp add: eq_commute)
    qed
    show ?thesis
    proof (cases "key k = key p")
      case True
      have "key k \<noteq> key x" if "x \<in> set (drop l ?s)" for x
        using above [OF that] True by simp
      then have "filter (\<lambda>x. key k = key x) (drop l ?s) = []"
        by (simp add: filter_empty_conv)
      with f True show ?thesis by simp
    next
      case False
      with f show ?thesis by simp
    qed
  qed
  have 3: "sorted (map key ?ys)"
  proof -
    have "sorted (map key (take l ?s))" "sorted (map key (drop l ?s))"
      using srt by (simp_all add: sorted_map del: sorted_sort_key)
    then show ?thesis using below above by (fastforce simp: sorted_append)
  qed
  from properties_for_sort_key [OF 1 2 3] b show ?thesis by simp
qed

lemma foldl_binary_insert:
  fixes key :: "'a \<Rightarrow> int"
  shows "\<forall>x\<in>set (done @ rest). \<forall>y\<in>set (done @ rest). compare x y = Some (key x - key y) \<Longrightarrow>
    foldl (binary_insert compare) (sort_key key done) rest = sort_key key (done @ rest)"
proof (induction rest arbitrary: "done")
  case Nil
  show ?case by simp
next
  case (Cons p rest)
  have "binary_insert compare (sort_key key done) p = sort_key key (done @ [p])"
    by (rule binary_insert_sort_key) (use Cons.prems in simp)
  moreover have "foldl (binary_insert compare) (sort_key key (done @ [p])) rest =
      sort_key key ((done @ [p]) @ rest)"
    by (rule Cons.IH) (use Cons.prems in simp)
  ultimately show ?case by simp
qed

lemma run_scan_ascending:
  fixes key :: "'a \<Rightarrow> int"
  shows "\<forall>x\<in>set (prev # rest). \<forall>y\<in>set (prev # rest). compare x y = Some (key x - key y) \<Longrightarrow>
    run_scan compare False prev rest = (run, remaining) \<Longrightarrow>
    rest = run @ remaining \<and> sorted (map key (prev # run))"
proof (induction rest arbitrary: prev run remaining)
  case Nil
  then show ?case by simp
next
  case (Cons c rest)
  have ord: "sort_compare compare c prev = key c - key prev"
    using Cons.prems(1) by (simp add: sort_compare_def)
  show ?case
  proof (cases "key c < key prev")
    case True
    with Cons.prems(2) ord show ?thesis by simp
  next
    case False
    obtain run' rem' where r: "run_scan compare False c rest = (run', rem')"
      by (cases "run_scan compare False c rest")
    with Cons.prems(2) ord False have e: "run = c # run'" "remaining = rem'" by simp_all
    have "rest = run' @ rem' \<and> sorted (map key (c # run'))"
      by (rule Cons.IH [OF _ r]) (use Cons.prems(1) in simp)
    with e False show ?thesis by fastforce
  qed
qed

lemma run_scan_descending:
  fixes key :: "'a \<Rightarrow> int"
  shows "\<forall>x\<in>set (prev # rest). \<forall>y\<in>set (prev # rest). compare x y = Some (key x - key y) \<Longrightarrow>
    run_scan compare True prev rest = (run, remaining) \<Longrightarrow>
    rest = run @ remaining \<and> sorted_wrt (\<lambda>a b. key b < key a) (prev # run)"
proof (induction rest arbitrary: prev run remaining)
  case Nil
  then show ?case by simp
next
  case (Cons c rest)
  have ord: "sort_compare compare c prev = key c - key prev"
    using Cons.prems(1) by (simp add: sort_compare_def)
  show ?case
  proof (cases "key c < key prev")
    case False
    with Cons.prems(2) ord show ?thesis by simp
  next
    case True
    obtain run' rem' where r: "run_scan compare True c rest = (run', rem')"
      by (cases "run_scan compare True c rest")
    with Cons.prems(2) ord True have e: "run = c # run'" "remaining = rem'" by simp_all
    have "rest = run' @ rem' \<and> sorted_wrt (\<lambda>a b. key b < key a) (c # run')"
      by (rule Cons.IH [OF _ r]) (use Cons.prems(1) in simp)
    with e True show ?thesis by fastforce
  qed
qed

lemma descending_filter:
  fixes key :: "'a \<Rightarrow> int"
  shows "sorted_wrt (\<lambda>a b. key b < key a) xs \<Longrightarrow> length (filter (\<lambda>x. key k = key x) xs) \<le> 1"
proof (induction xs)
  case Nil
  show ?case by simp
next
  case (Cons x xs)
  show ?case
  proof (cases "key k = key x")
    case True
    have "key k \<noteq> key y" if "y \<in> set xs" for y using Cons.prems that True by auto
    then have "filter (\<lambda>x. key k = key x) xs = []" by (simp add: filter_empty_conv)
    with True show ?thesis by simp
  next
    case False
    with Cons show ?thesis by simp
  qed
qed

lemma descending_sort_key:
  fixes key :: "'a \<Rightarrow> int"
  assumes "sorted_wrt (\<lambda>a b. key b < key a) xs"
  shows "sort_key key xs = rev xs"
proof (rule properties_for_sort_key)
  show "mset (rev xs) = mset xs" by simp
next
  fix k
  have "length (filter (\<lambda>x. key k = key x) xs) \<le> 1" by (rule descending_filter [OF assms])
  then have "rev (filter (\<lambda>x. key k = key x) xs) = filter (\<lambda>x. key k = key x) xs"
    by (cases "filter (\<lambda>x. key k = key x) xs") simp_all
  then show "filter (\<lambda>x. key k = key x) (rev xs) = filter (\<lambda>x. key k = key x) xs"
    by (simp add: rev_filter)
next
  from assms show "sorted (map key (rev xs))"
  proof (induction xs)
    case Nil
    show ?case by simp
  next
    case (Cons x xs)
    then show ?case by (fastforce simp: sorted_append)
  qed
qed

lemma countAndMakeRun_sort_key:
  fixes key :: "'a \<Rightarrow> int"
  assumes "\<forall>x\<in>set xs. \<forall>y\<in>set xs. compare x y = Some (key x - key y)"
    and "countAndMakeRun compare xs = (run, remaining)"
  shows "\<exists>done. xs = done @ remaining \<and> run = sort_key key done"
proof (cases xs)
  case Nil
  with assms(2) show ?thesis by simp
next
  case (Cons x0 tl0)
  show ?thesis
  proof (cases tl0)
    case Nil
    with \<open>xs = x0 # tl0\<close> assms(2) have "xs = [x0] @ remaining \<and> run = sort_key key [x0]"
      by auto
    then show ?thesis ..
  next
    case (Cons x1 rest)
    note xs = \<open>xs = x0 # tl0\<close> Cons
    have ord: "sort_compare compare x1 x0 = key x1 - key x0"
      using assms(1) by (simp add: xs sort_compare_def)
    have cons: "\<forall>x\<in>set (x1 # rest). \<forall>y\<in>set (x1 # rest). compare x y = Some (key x - key y)"
      using assms(1) by (simp add: xs)
    show ?thesis
    proof (cases "key x1 < key x0")
      case True
      obtain r rem where s: "run_scan compare True x1 rest = (r, rem)"
        by (cases "run_scan compare True x1 rest")
      with assms(2) True ord have e: "run = rev (x0 # x1 # r)" "remaining = rem"
        by (simp_all add: xs)
      from run_scan_descending [OF cons s]
      have a: "rest = r @ rem" and d: "sorted_wrt (\<lambda>a b. key b < key a) (x1 # r)" by simp_all
      from d True have "sorted_wrt (\<lambda>a b. key b < key a) (x0 # x1 # r)" by fastforce
      then have "sort_key key (x0 # x1 # r) = rev (x0 # x1 # r)" by (rule descending_sort_key)
      with e a have "xs = (x0 # x1 # r) @ remaining \<and> run = sort_key key (x0 # x1 # r)"
        by (simp add: xs)
      then show ?thesis ..
    next
      case False
      obtain r rem where s: "run_scan compare False x1 rest = (r, rem)"
        by (cases "run_scan compare False x1 rest")
      with assms(2) False ord have e: "run = x0 # x1 # r" "remaining = rem"
        by (simp_all add: xs)
      from run_scan_ascending [OF cons s]
      have a: "rest = r @ rem" and d: "sorted (map key (x1 # r))" by simp_all
      from d False have "sorted (map key (x0 # x1 # r))" by fastforce
      then have "sort_key key (x0 # x1 # r) = x0 # x1 # r" by (rule sort_key_id_if_sorted)
      with e a have "xs = (x0 # x1 # r) @ remaining \<and> run = sort_key key (x0 # x1 # r)"
        by (simp add: xs)
      then show ?thesis ..
    qed
  qed
qed

lemma v8_sort_sort_key:
  fixes key :: "'a \<Rightarrow> int"
  assumes "\<forall>x\<in>set xs. \<forall>y\<in>set xs. compare x y = Some (key x - key y)"
  shows "v8_sort compare xs = sort_key key xs"
proof (cases "length xs < 2")
  case True
  then have "xs = [] \<or> (\<exists>x. xs = [x])" by (cases xs) (auto simp: length_Suc_conv)
  then show ?thesis by (auto simp: v8_sort_def)
next
  case False
  obtain run remaining where r: "countAndMakeRun compare xs = (run, remaining)"
    by (cases "countAndMakeRun compare xs")
  from countAndMakeRun_sort_key [OF assms r] obtain pre
    where p: "xs = pre @ remaining" "run = sort_key key pre" by blast
  have "foldl (binary_insert compare) (sort_key key pre) remaining = sort_key key (pre @ remaining)"
    by (rule foldl_binary_insert) (use assms p(1) in simp)
  with False r p show ?thesis by (simp add: v8_sort_def)
qed

lemma v8_sorts_by_key: "sorts_by_key v8_sort"
  unfolding sorts_by_key_def by (intro allI impI) (rule v8_sort_sort_key)

lemma show_step_core:
  "\<exists>sh' st'. show_step rt (acc, st) sh = (acc @ [sh'], st') \<and> core sh' = core sh"
  by (cases "bandcampUrl sh")
    (auto simp: show_step_def core_def split: prod.splits)

lemma show_loop_core:
  "map core (fst (foldl (show_step rt) (acc, st) raws)) = map core acc @ map core raws"
proof (induction raws arbitrary: acc st)
  case Nil
  show ?case by simp
next
  case (Cons sh raws)
  from show_step_core [of rt acc st sh] obtain sh' st'
    where s: "show_step rt (acc, st) sh = (acc @ [sh'], st')" and c: "core sh' = core sh"
    by blast
  from Cons.IH [of "acc @ [sh']" st'] s c show ?case by simp
qed

lemma core_fields: "date (core s) = date s" "venue (core s) = venue s" "title (core s) = title s"
  by (simp_all add: core_def)

lemma build_shows:
  assumes "build rt venuesRes showsRes loaded w now = Inr out"
    and "fetchCSV showsRes = Inr showsData"
  shows "\<exists>unsorted. out_shows out = Array_sort rt (by_date rt) unsorted \<and>
    map core unsorted = map (\<lambda>row. core (make_show (out_venues out) row)) (filter has_required showsData)"
proof -
  from assms obtain venuesData where v: "fetchCSV venuesRes = Inr venuesData"
    by (cases "fetchCSV venuesRes") (auto simp: build_def)
  let ?venues = "foldl add_venue empty_object venuesData"
  let ?st = "\<lparr>bandcampCache = loaded, cacheHits = 0, cacheMisses = 0, world = w, requests = []\<rparr>"
  let ?raw = "map (make_show ?venues) (filter has_required showsData)"
  obtain unsorted st1 where f: "foldl (show_step rt) ([], ?st) ?raw = (unsorted, st1)"
    by (cases "foldl (show_step rt) ([], ?st) ?raw")
  with assms v have out: "out = \<lparr>out_venues = ?venues,
      out_shows = Array_sort rt (by_date rt) unsorted, lastUpdated = now, final = st1\<rparr>"
    by (simp add: build_def Let_def)
  from show_loop_core [of rt "[]" ?st ?raw] f have "map core unsorted = map core ?raw" by simp
  then show ?thesis using out by (auto simp: comp_def)
qed

text \<open>
  C8: the claim has no partially constructed show in the document. At a shows sheet with
  the rows \<^verbatim>\<open>2025-11-01,constructor,A\<close> and \<^verbatim>\<open>2025-10-15,V,\<close>, the row without a title gives no
  show and the other row gives one, as the claim says; but the venue of that show is not a
  venue object, it is the function that the lookup object inherits from \<^verbatim>\<open>Object.prototype\<close>
  under the name \<^verbatim>\<open>constructor\<close>, and \<^verbatim>\<open>shows.json\<close> has the show without a venue.
\<close>

theorem venue_inherited_function:
  "map_sum (\<lambda>e. e) (\<lambda>out. map (\<lambda>s. (date s, venue s, title s)) (out_shows out))
     (build steady_runtime venues_csv inherited_csv Map.empty 0 ''now'') =
   Inr [(''2025-11-01'', InheritedFunction ''constructor'', ''A'')]"
  by code_simp

text \<open>
  C9, as the claim states it: the shows of the document would be in ascending order of
  their dates. With the rows dated \<^verbatim>\<open>2025-11-01\<close>, \<^verbatim>\<open>TBA\<close> and \<^verbatim>\<open>2025-10-15\<close>, every comparison
  with the date that does not parse yields NaN, the sort of V8 leaves the shows in the
  order of the rows, and the show of 2025-11-01 stands before the show of 2025-10-15.
\<close>

theorem shows_unsorted_counterexample:
  "map_sum (\<lambda>e. e) (\<lambda>out. map (\<lambda>s. (date s, title s)) (out_shows out))
     (build steady_runtime venues_csv undated_csv Map.empty 0 ''now'') =
   Inr [(''2025-11-01'', ''A''), (''TBA'', ''B''), (''2025-10-15'', ''C'')] \<and>
   Date_parse steady_runtime ''TBA'' = None \<and>
   the (Date_parse steady_runtime ''2025-10-15'') < the (Date_parse steady_runtime ''2025-11-01'')"
  by code_simp

text \<open>
  C9, amended: when the date of every show row that is kept parses, and the sort of the
  runtime is the stable sort that ECMAScript requires for a consistent comparison, the
  shows of the document are in ascending order of their parsed dates, and the shows of any
  one date stand in the order of their rows in the spreadsheet.
\<close>

theorem shows_sorted_stable:
  assumes "build rt venuesRes showsRes loaded w now = Inr out"
    and "fetchCSV showsRes = Inr showsData"
    and "\<forall>row\<in>set showsData. has_required row \<longrightarrow> Date_parse rt (cell row 0) \<noteq> None"
    and "sorts_by_key (Array_sort rt)"
  shows "sorted (map (\<lambda>s. the (Date_parse rt (date s))) (out_shows out)) \<and>
    (\<forall>k. map core (filter (\<lambda>s. the (Date_parse rt (date s)) = k) (out_shows out)) =
       map (\<lambda>row. core (make_show (out_venues out) row))
         (filter (\<lambda>row. the (Date_parse rt (cell row 0)) = k) (filter has_required showsData)))"
proof -
  let ?key = "\<lambda>s. the (Date_parse rt (date s))"
  let ?mk = "\<lambda>row. core (make_show (out_venues out) row)"
  from build_shows [OF assms(1,2)] obtain unsorted
    where o: "out_shows out = Array_sort rt (by_date rt) unsorted"
    and c: "map core unsorted = map ?mk (filter has_required showsData)"
    by blast
  have d: "date (?mk row) = cell row 0" for row by (simp add: core_def make_show_def)
  have parsed: "Date_parse rt (date s) \<noteq> None" if "s \<in> set unsorted" for s
  proof -
    from that have "core s \<in> set (map core unsorted)" by simp
    with c obtain row where "row \<in> set showsData" "has_required row" "core s = ?mk row" by auto
    with assms(3) d [of row] core_fields(1) [of s] show ?thesis by metis
  qed
  have "by_date rt x y = Some (?key x - ?key y)" if "x \<in> set unsorted" "y \<in> set unsorted" for x y
  proof -
    from parsed [OF that(1)] parsed [OF that(2)] obtain a b
      where "Date_parse rt (date x) = Some a" "Date_parse rt (date y) = Some b" by auto
    then show ?thesis by (simp add: by_date_def)
  qed
  then have "\<forall>x\<in>set unsorted. \<forall>y\<in>set unsorted. by_date rt x y = Some (?key x - ?key y)"
    by blast
  with assms(4) have "Array_sort rt (by_date rt) unsorted = sort_key ?key unsorted"
    by (rule sorts_by_keyD)
  then have s: "out_shows out = sort_key ?key unsorted" unfolding o .
  have 1: "sorted (map ?key (out_shows out))" by (simp add: s)
  have 2: "map core (filter (\<lambda>s. ?key s = k) (out_shows out)) =
       map ?mk (filter (\<lambda>row. the (Date_parse rt (cell row 0)) = k) (filter has_required showsData))"
    for k
  proof -
    have "filter (\<lambda>s. ?key s = k) (out_shows out) = filter (\<lambda>s. ?key s = k) unsorted"
      unfolding s by (rule sort_key_stable)
    then have "map core (filter (\<lambda>s. ?key s = k) (out_shows out)) =
        map core (filter (\<lambda>s. ?key s = k) unsorted)" by simp
    also have "\<dots> = filter (\<lambda>s. ?key s = k) (map core unsorted)"
      by (simp add: filter_map comp_def core_fields)
    also have "\<dots> = filter (\<lambda>s. ?key s = k) (map ?mk (filter has_required showsData))"
      by (simp only: c)
    also have "\<dots> = map ?mk (filter (\<lambda>row. the (Date_parse rt (cell row 0)) = k)
        (filter has_required showsData))"
      by (simp add: filter_map comp_def d)
    finally show ?thesis .
  qed
  from 1 2 show ?thesis by blast
qed

text \<open>
  The theorem at rows dated 2025-11-01, 2025-10-15 and 2025-11-01, titled A, B and C, on a
  runtime that sorts as V8 does: the document has B, then A, then C.
\<close>

theorem shows_sorted_stable_witness:
  "\<exists>out. build steady_runtime venues_csv dated_csv Map.empty 0 ''now'' = Inr out \<and>
     sorted (map (\<lambda>s. the (Date_parse steady_runtime (date s))) (out_shows out)) \<and>
     map date (out_shows out) = [''2025-10-15'', ''2025-11-01'', ''2025-11-01''] \<and>
     map title (out_shows out) = [''B'', ''A'', ''C'']"
proof -
  have v: "fetchCSV venues_csv = Inr [[''V'', ''1 Main St'']]" by code_simp
  have s: "fetchCSV dated_csv = Inr [[''2025-11-01'', ''V'', ''A''], [''2025-10-15'', ''V'', ''B''],
      [''2025-11-01'', ''V'', ''C'']]"
    by code_simp
  from build_total [OF v s, where rt = steady_runtime and loaded = Map.empty and w = 0
      and now = "''now''"] obtain out
    where b: "build steady_runtime venues_csv dated_csv Map.empty 0 ''now'' = Inr out" ..
  have p: "\<forall>row\<in>set [[''2025-11-01'', ''V'', ''A''], [''2025-10-15'', ''V'', ''B''],
      [''2025-11-01'', ''V'', ''C'']].
      has_required row \<longrightarrow> Date_parse steady_runtime (cell row 0) \<noteq> None"
    by code_simp
  have q: "sorts_by_key (Array_sort steady_runtime)"
    by (simp add: steady_runtime_def v8_sorts_by_key)
  have "map_sum (\<lambda>e. e) (\<lambda>out. (map date (out_shows out), map title (out_shows out)))
      (build steady_runtime venues_csv dated_csv Map.empty 0 ''now'') =
      Inr ([''2025-10-15'', ''2025-11-01'', ''2025-11-01''], [''B'', ''A'', ''C''])"
    by code_simp
  then have "map_sum (\<lambda>e. e) (\<lambda>out. (map date (out_shows out), map title (out_shows out)))
      (Inr out :: build_error + nat build_result) =
      Inr ([''2025-10-15'', ''2025-11-01'', ''2025-11-01''], [''B'', ''A'', ''C''])"
    unfolding b .
  then have d: "map date (out_shows out) = [''2025-10-15'', ''2025-11-01'', ''2025-11-01'']"
    and t: "map title (out_shows out) = [''B'', ''A'', ''C'']" by simp_all
  from shows_sorted_stable [OF b s p q]
  have o: "sorted (map (\<lambda>s. the (Date_parse steady_runtime (date s))) (out_shows out))"
    by (rule conjunct1)
  from b o d t show ?thesis by (intro exI [of _ out] conjI)
qed

end
